theory Spec2Isabelle
  imports Main "HOL-Library.Word" "HOL-Library.Char_ord" "HOL-Library.List_Lexorder"
    "HOL-Library.Product_Lexorder" "HOL-Library.AList" "HOL-Library.Multiset" "HOL-Library.Sublist"
begin

section \<open>Syntax trees as the harness reads them\<close>

text \<open>
  The harness of \<^verbatim>\<open>comprehensive_move_test.py\<close> reads six attributes of a tree-sitter
  node: \<^verbatim>\<open>type\<close>, \<^verbatim>\<open>text\<close> (raw bytes, possibly absent), \<^verbatim>\<open>start_point\<close>,
  \<^verbatim>\<open>end_point\<close>, \<^verbatim>\<open>has_error\<close> and \<^verbatim>\<open>children\<close>; \<^verbatim>\<open>child_count\<close> is the number
  of children. All of them are supplied by the parser; the harness computes none of them.
  A decoded Python \<^verbatim>\<open>str\<close> is a list of code points.
\<close>

type_synonym bytes = "8 word list"
type_synonym ustr = "nat list"

datatype point = Point (row: int) (column: int)

datatype node = Node (ntype: string) (node_text: "bytes option") (start_point: point)
  (end_point: point) (has_error: bool) (children: "node list")

definition child_count :: "node \<Rightarrow> int" where
  "child_count n = int (length (children n))"

section \<open>Faults\<close>

text \<open>
  Every Python exception that can reach an \<^verbatim>\<open>except Exception\<close> handler of the harness is
  a value of \<open>error\<close>. File reads and the parser are supplied by the environment and may
  fail with any of them; \<^verbatim>\<open>bytes.decode('utf-8')\<close> fails with \<open>UnicodeDecodeError\<close>;
  a recursion that needs more nested calls than the interpreter allows fails with
  \<open>RecursionError\<close>.

  The harness never changes the interpreter's recursion limit. The two walks over the
  whole tree, \<^verbatim>\<open>find_errors\<close> and \<^verbatim>\<open>visit\<close>, nest one call per level of the tree, so
  each takes the number of nested calls that are still available where it starts; a call
  made when none is left raises \<open>RecursionError\<close>, and the fault leaves every
  enclosing call of the walk. \<^verbatim>\<open>analyze_node\<close> nests at most three calls and is taken to
  have room for them.
\<close>

datatype error =
  OSError | UnicodeDecodeError | ParserFault | ImportError | ZeroDivisionError | RecursionError

section \<open>ErrorLocator: \<^verbatim>\<open>find_errors\<close>\<close>

text \<open>
  \<^verbatim>\<open>errors = []; if node.type == 'ERROR': errors.append(node);
  for child in node.children: errors.extend(find_errors(child)); return errors\<close>

  The first argument is the number of nested calls available; the loop over the children
  carries the list \<^verbatim>\<open>errors\<close> built so far.
\<close>

fun find_errors :: "nat \<Rightarrow> node \<Rightarrow> error + node list"
  and find_errors_children :: "nat \<Rightarrow> node list \<Rightarrow> node list \<Rightarrow> error + node list" where
  "find_errors 0 node = Inl RecursionError"
| "find_errors (Suc k) (Node ty tx sp ep he cs) =
     find_errors_children k cs (if ty = ''ERROR'' then [Node ty tx sp ep he cs] else [])"
| "find_errors_children k [] errors = Inr errors"
| "find_errors_children k (child # rest) errors =
     (case find_errors k child of
        Inl e \<Rightarrow> Inl e
      | Inr found \<Rightarrow> find_errors_children k rest (errors @ found))"

text \<open>
  The pre-order walk of the specification, written independently of the code: a node,
  then the walks of its children from left to right.
\<close>

fun preorder :: "node \<Rightarrow> node list" where
  "preorder (Node ty tx sp ep he cs) = Node ty tx sp ep he cs # concat (map preorder cs)"

definition is_error_tag :: "node \<Rightarrow> bool" where
  "is_error_tag n = (ntype n = ''ERROR'')"

text \<open>The number of levels of a tree: 1 for a node without children.\<close>

fun height :: "node \<Rightarrow> nat" where
  "height (Node ty tx sp ep he cs) = Suc (fold max (map height cs) 0)"

section \<open>Decoding\<close>

definition cont :: "nat \<Rightarrow> bool" where
  "cont b = (0x80 \<le> b \<and> b \<le> 0xBF)"

text \<open>
  Strict UTF-8 decoding of a byte sequence (given as numbers below 256) into code points:
  the well-formed sequences of the Unicode standard, which exclude overlong forms,
  surrogates and code points above U+10FFFF; anything else is a fault.
\<close>

fun utf8_dec :: "nat list \<Rightarrow> ustr option" where
  "utf8_dec [] = Some []"
| "utf8_dec (b0 # bs) =
     (if b0 < 0x80 then map_option ((#) b0) (utf8_dec bs)
      else if 0xC2 \<le> b0 \<and> b0 \<le> 0xDF then
        (case bs of
           b1 # r \<Rightarrow>
             if cont b1
             then map_option ((#) ((b0 - 0xC0) * 64 + (b1 - 0x80))) (utf8_dec r)
             else None
         | _ \<Rightarrow> None)
      else if 0xE0 \<le> b0 \<and> b0 \<le> 0xEF then
        (case bs of
           b1 # b2 # r \<Rightarrow>
             if (if b0 = 0xE0 then 0xA0 else 0x80) \<le> b1
                \<and> b1 \<le> (if b0 = 0xED then 0x9F else 0xBF) \<and> cont b2
             then map_option
                    ((#) ((b0 - 0xE0) * 4096 + (b1 - 0x80) * 64 + (b2 - 0x80)))
                    (utf8_dec r)
             else None
         | _ \<Rightarrow> None)
      else if 0xF0 \<le> b0 \<and> b0 \<le> 0xF4 then
        (case bs of
           b1 # b2 # b3 # r \<Rightarrow>
             if (if b0 = 0xF0 then 0x90 else 0x80) \<le> b1
                \<and> b1 \<le> (if b0 = 0xF4 then 0x8F else 0xBF) \<and> cont b2 \<and> cont b3
             then map_option
                    ((#) ((b0 - 0xF0) * 262144 + (b1 - 0x80) * 4096
                          + (b2 - 0x80) * 64 + (b3 - 0x80)))
                    (utf8_dec r)
             else None
         | _ \<Rightarrow> None)
      else None)"

definition decode_utf8 :: "bytes \<Rightarrow> error + ustr" where
  "decode_utf8 bs =
     (case utf8_dec (map unat bs) of None \<Rightarrow> Inl UnicodeDecodeError | Some s \<Rightarrow> Inr s)"

text \<open>
  \<^verbatim>\<open>hasattr(node, 'text') and node.text\<close>: the text is present and not the empty
  byte string.
\<close>

definition truthy_text :: "node \<Rightarrow> bytes option" where
  "truthy_text n =
     (case node_text n of None \<Rightarrow> None | Some bs \<Rightarrow> if bs = [] then None else Some bs)"

section \<open>Capped previews\<close>

definition ellipsis :: ustr where
  "ellipsis = [46, 46, 46]"

text \<open>\<^verbatim>\<open>s.replace('\n', '\\n')\<close>: a line feed becomes a backslash and the letter n.\<close>

definition replace_nl :: "ustr \<Rightarrow> ustr" where
  "replace_nl s = concat (map (\<lambda>c. if c = 10 then [92, 110] else [c]) s)"

text \<open>
  \<^verbatim>\<open>text_preview = node.text.decode('utf-8')[:50].replace('\n', '\\n');
  if len(text_preview) == 50: text_preview += "..."\<close>
\<close>

definition text_preview :: "ustr \<Rightarrow> ustr" where
  "text_preview s =
     (let p = replace_nl (take 50 s) in if length p = 50 then p @ ellipsis else p)"

text \<open>\<^verbatim>\<open>error_text = error_node.text.decode('utf-8')[:30]\<close>\<close>

definition error_text :: "ustr \<Rightarrow> ustr" where
  "error_text s = take 30 s"

text \<open>
  \<^verbatim>\<open>line_preview = line[:45]; if len(line) > 45: line_preview += "..."\<close>
\<close>

definition line_preview :: "ustr \<Rightarrow> ustr" where
  "line_preview line = (if length line > 45 then take 45 line @ ellipsis else take 45 line)"

section \<open>Printed output\<close>

text \<open>
  Each \<^verbatim>\<open>print\<close> call of the harness is one event that carries the values the call
  interpolates; banners and glyphs are left out. The output of a run is the list of its
  events in the order printed.
\<close>

datatype event =
    TestingFile string
  | FileSize int
  | LineCount int
  | PreviewHeader int
  | PreviewLine int ustr
  | PreviewOmitted int
  | ParseStart
  | ParseFailed
  | ErrorCount int
  | ErrorLocation int int int
  | ErrorContent ustr
  | ParseOk
  | RootType string
  | ChildCount int
  | AstHeader
  | AstLine int string "ustr option"
  | StatsHeader
  | TypeCount string int
  | TestResult bool
  | TestException error
  | Banner
  | ParserInit
  | ParserCreated
  | LanguageName string
  | DirNotFound string
  | NoMoveFiles string
  | FoundFiles int
  | FoundFile int string
  | StartTests
  | SummaryHeader
  | TotalFiles int
  | TestsPassed int
  | TestsFailed int
  | SuccessRate int int
  | DetailLine string bool
  | AllPassed
  | SomeFailed int
  | Completed
  | ImportErrorMsg error
  | OtherErrorMsg error

section \<open>TreeWalker: \<^verbatim>\<open>analyze_node\<close>\<close>

text \<open>
  The line of one node: its depth, its type and, when the text is present and not empty,
  the capped preview of the decoded text. Decoding may fault, and nothing catches the
  fault inside the walk.
\<close>

definition node_line :: "node \<Rightarrow> int \<Rightarrow> error + event" where
  "node_line n depth =
     (case truthy_text n of
        None \<Rightarrow> Inr (AstLine depth (ntype n) None)
      | Some bs \<Rightarrow>
          (case decode_utf8 bs of
             Inl e \<Rightarrow> Inl e
           | Inr s \<Rightarrow> Inr (AstLine depth (ntype n) (Some (text_preview s)))))"

text \<open>
  \<^verbatim>\<open>analyze_node(node, depth, max_depth)\<close> prints the line of the node, then walks
  the children when \<^verbatim>\<open>depth < max_depth and node.child_count > 0\<close>. The result is the
  lines printed and the fault that stopped the walk, if any.
\<close>

fun analyze_node :: "node \<Rightarrow> int \<Rightarrow> int \<Rightarrow> event list \<times> error option"
  and analyze_children :: "node list \<Rightarrow> int \<Rightarrow> int \<Rightarrow> event list \<times> error option" where
  "analyze_node (Node ty tx sp ep he cs) depth max_depth =
     (case node_line (Node ty tx sp ep he cs) depth of
        Inl e \<Rightarrow> ([], Some e)
      | Inr l \<Rightarrow>
          if depth < max_depth \<and> int (length cs) > 0
          then (case analyze_children cs (depth + 1) max_depth of (out, r) \<Rightarrow> (l # out, r))
          else ([l], None))"
| "analyze_children [] depth max_depth = ([], None)"
| "analyze_children (c # cs) depth max_depth =
     (case analyze_node c depth max_depth of
        (out, Some e) \<Rightarrow> (out, Some e)
      | (out, None) \<Rightarrow>
          (case analyze_children cs depth max_depth of (out', r) \<Rightarrow> (out @ out', r)))"

section \<open>TreeWalker: \<^verbatim>\<open>count_node_types\<close>\<close>

text \<open>
  A Python \<^verbatim>\<open>dict\<close> is an association list in insertion order; storing under a key
  that is present replaces the value in place (\<open>AList.update\<close>).
  \<^verbatim>\<open>type_counts[n.type] = type_counts.get(n.type, 0) + 1\<close>
\<close>

definition dict_get :: "('k \<times> 'v) list \<Rightarrow> 'k \<Rightarrow> 'v \<Rightarrow> 'v" where
  "dict_get d k dflt = (case map_of d k of None \<Rightarrow> dflt | Some v \<Rightarrow> v)"

definition bump :: "string \<Rightarrow> (string \<times> int) list \<Rightarrow> (string \<times> int) list" where
  "bump ty type_counts = AList.update ty (dict_get type_counts ty 0 + 1) type_counts"

text \<open>
  \<^verbatim>\<open>def visit(n): type_counts[n.type] = ...; for child in n.children: visit(child)\<close>
  with the dictionary passed through and the number of nested calls available.
\<close>

fun visit :: "nat \<Rightarrow> node \<Rightarrow> (string \<times> int) list \<Rightarrow> error + (string \<times> int) list"
  and visit_children ::
    "nat \<Rightarrow> node list \<Rightarrow> (string \<times> int) list \<Rightarrow> error + (string \<times> int) list" where
  "visit 0 n type_counts = Inl RecursionError"
| "visit (Suc k) (Node ty tx sp ep he cs) type_counts =
     visit_children k cs (bump ty type_counts)"
| "visit_children k [] type_counts = Inr type_counts"
| "visit_children k (child # rest) type_counts =
     (case visit k child type_counts of
        Inl e \<Rightarrow> Inl e
      | Inr type_counts' \<Rightarrow> visit_children k rest type_counts')"

text \<open>
  \<^verbatim>\<open>count_node_types(node)\<close> is itself one call, inside which \<^verbatim>\<open>visit(node)\<close>
  starts.
\<close>

definition count_node_types :: "nat \<Rightarrow> node \<Rightarrow> error + (string \<times> int) list" where
  "count_node_types limit node =
     (case limit of 0 \<Rightarrow> Inl RecursionError | Suc k \<Rightarrow> visit k node [])"

section \<open>FileProbe: \<^verbatim>\<open>test_move_file\<close>\<close>

text \<open>\<^verbatim>\<open>enumerate(xs, start)\<close>\<close>

fun py_enumerate :: "int \<Rightarrow> 'a list \<Rightarrow> (int \<times> 'a) list" where
  "py_enumerate i [] = []"
| "py_enumerate i (x # xs) = (i, x) # py_enumerate (i + 1) xs"

text \<open>
  \<^verbatim>\<open>str.splitlines()\<close>: the text is cut at every line boundary (CR LF counts as one),
  the boundaries are dropped, and a text that ends with a boundary has no empty last line.
\<close>

definition line_boundary :: "nat \<Rightarrow> bool" where
  "line_boundary c = (c \<in> {10, 11, 12, 13, 28, 29, 30, 133, 8232, 8233})"

fun split_lines :: "ustr \<Rightarrow> ustr \<Rightarrow> ustr list" where
  "split_lines cur [] = (if cur = [] then [] else [cur])"
| "split_lines cur (c # cs) =
     (if c = 13 then
        (case cs of
           [] \<Rightarrow> [cur]
         | d # ds \<Rightarrow> if d = 10 then cur # split_lines [] ds else cur # split_lines [] cs)
      else if line_boundary c then cur # split_lines [] cs
      else split_lines (cur @ [c]) cs)"

definition splitlines :: "ustr \<Rightarrow> ustr list" where
  "splitlines code = split_lines [] code"

text \<open>The size lines and the code preview, lines 49 to 67 of the source.\<close>

definition preview_report :: "ustr \<Rightarrow> event list" where
  "preview_report code =
     (let lines = splitlines code;
          preview_lines = min 10 (int (length lines))
      in [FileSize (int (length code)), LineCount (int (length lines)),
          PreviewHeader preview_lines]
         @ map (\<lambda>(i, line). PreviewLine i (line_preview line))
             (py_enumerate 1 (take (nat preview_lines) lines))
         @ (if int (length lines) > preview_lines
            then [PreviewOmitted (int (length lines) - preview_lines)] else [])
         @ [ParseStart])"

text \<open>
  The loop over \<^verbatim>\<open>enumerate(error_nodes[:3], 1)\<close>: the location of each error node,
  one-based, then its excerpt when the text is present and not empty. A decoding fault
  leaves the loop.
\<close>

fun show_errors :: "(int \<times> node) list \<Rightarrow> event list \<times> error option" where
  "show_errors [] = ([], None)"
| "show_errors ((i, error_node) # rest) =
     (let loc = ErrorLocation i (row (start_point error_node) + 1)
                  (column (start_point error_node) + 1)
      in case truthy_text error_node of
           None \<Rightarrow> (case show_errors rest of (out, r) \<Rightarrow> (loc # out, r))
         | Some bs \<Rightarrow>
             (case decode_utf8 bs of
                Inl e \<Rightarrow> ([loc], Some e)
              | Inr s \<Rightarrow>
                  (case show_errors rest of
                     (out, r) \<Rightarrow> (loc # ErrorContent (error_text s) # out, r))))"

text \<open>
  The branch of a tree with the error flag, lines 72 to 92: the walk of
  \<^verbatim>\<open>find_errors\<close> comes before the count is printed, so a fault of the walk leaves
  the branch with nothing but its first line printed.
\<close>

definition error_report :: "nat \<Rightarrow> node \<Rightarrow> event list \<times> error option" where
  "error_report limit root =
     (case find_errors limit root of
        Inl e \<Rightarrow> ([ParseFailed], Some e)
      | Inr error_nodes \<Rightarrow>
          (case show_errors (py_enumerate 1 (take 3 error_nodes)) of
             (out, r) \<Rightarrow> ([ParseFailed, ErrorCount (int (length error_nodes))] @ out, r)))"

text \<open>
  The branch of a tree without the error flag, lines 94 to 115: the render, then the
  census, which is computed before its heading is printed.
\<close>

definition success_report :: "nat \<Rightarrow> node \<Rightarrow> event list \<times> error option" where
  "success_report limit root =
     (let head = [ParseOk, RootType (ntype root), ChildCount (child_count root), AstHeader]
      in case analyze_node root 0 2 of
           (out, Some e) \<Rightarrow> (head @ out, Some e)
         | (out, None) \<Rightarrow>
             (case count_node_types limit root of
                Inl e \<Rightarrow> (head @ out, Some e)
              | Inr node_types \<Rightarrow>
                  (head @ out @ [StatsHeader]
                     @ map (\<lambda>(node_type, count). TypeCount node_type count)
                         (sort node_types),
                   None)))"

text \<open>
  \<^verbatim>\<open>test_move_file(file_path, parser)\<close> with the file system as a parameter:
  \<open>read_file\<close> is \<^verbatim>\<open>open(file_path, 'r', encoding='utf-8').read()\<close> and
  \<open>parser\<close> is \<^verbatim>\<open>parser.parse(bytes(code, "utf8")).root_node\<close>; both may fault. The
  \<^verbatim>\<open>except Exception\<close> handler turns every fault of the body into the verdict
  \<open>False\<close>. The first argument is the number of nested calls available to the body.
  The result is the output and the verdict.
\<close>

definition test_move_file ::
  "nat \<Rightarrow> (string \<Rightarrow> error + ustr) \<Rightarrow> string \<Rightarrow> (ustr \<Rightarrow> error + node)
     \<Rightarrow> event list \<times> bool" where
  "test_move_file limit read_file file_path parser =
     (case read_file file_path of
        Inl e \<Rightarrow> ([TestingFile file_path, TestException e], False)
      | Inr code \<Rightarrow>
          (case parser code of
             Inl e \<Rightarrow>
               (TestingFile file_path # preview_report code @ [TestException e], False)
           | Inr root \<Rightarrow>
               (case (if has_error root then error_report limit root
                      else success_report limit root) of
                  (out, Some e) \<Rightarrow>
                    (TestingFile file_path # preview_report code @ out @ [TestException e],
                     False)
                | (out, None) \<Rightarrow>
                    (TestingFile file_path # preview_report code @ out
                       @ [TestResult (\<not> has_error root)],
                     \<not> has_error root))))"

section \<open>SuiteRunner: \<^verbatim>\<open>main\<close>\<close>

text \<open>
  The start of \<^verbatim>\<open>main\<close>: the imports (lines 129 and 130) fault, or they succeed and
  the construction of the parser (lines 134 and 135) faults, or there is a parser.
\<close>

datatype setup_result =
    ImportFault error
  | ConstructFault error
  | Ready "ustr \<Rightarrow> error + node"

text \<open>
  What a run finds around it: how the start goes, the name of the language, whether the
  directory \<^verbatim>\<open>move_test_files\<close> exists, the paths \<^verbatim>\<open>glob.glob\<close> returns, in the order
  it returns them, the contents of the files, and the number of nested calls available
  to the body of \<^verbatim>\<open>test_move_file\<close>.
\<close>

record env =
  parser_setup :: setup_result
  frames :: nat
  language_name :: "string option"
  dir_exists :: bool
  glob_result :: "string list"
  read_file :: "string \<Rightarrow> error + ustr"

definition test_dir :: string where
  "test_dir = ''move_test_files''"

text \<open>\<^verbatim>\<open>os.path.basename\<close>: what follows the last slash.\<close>

definition basename :: "string \<Rightarrow> string" where
  "basename p = rev (takeWhile (\<lambda>c. c \<noteq> CHR ''/'') (rev p))"

text \<open>
  \<^verbatim>\<open>for file_path in sorted(move_files): filename = os.path.basename(file_path);
  success = test_move_file(file_path, parser); test_results[filename] = success\<close>
\<close>

fun run_files :: "nat \<Rightarrow> (string \<Rightarrow> error + ustr) \<Rightarrow> (ustr \<Rightarrow> error + node) \<Rightarrow> string list
    \<Rightarrow> (string \<times> bool) list \<Rightarrow> event list \<times> (string \<times> bool) list" where
  "run_files limit rd parser [] test_results = ([], test_results)"
| "run_files limit rd parser (file_path # rest) test_results =
     (case test_move_file limit rd file_path parser of
        (out, success) \<Rightarrow>
          (case run_files limit rd parser rest
                  (AList.update (basename file_path) success test_results) of
             (out', test_results') \<Rightarrow> (out @ out', test_results')))"

text \<open>
  The summary, lines 165 to 187. The quotient \<^verbatim>\<open>passed_files/total_files\<close> raises
  \<open>ZeroDivisionError\<close> when the total is zero; \<open>SuccessRate\<close> carries the two operands
  of a division that was carried out.
\<close>

definition summary :: "(string \<times> bool) list \<Rightarrow> event list \<times> error option" where
  "summary test_results =
     (let total_files = int (length test_results);
          passed_files = int (length (filter (\<lambda>success. success) (map snd test_results)));
          failed_files = total_files - passed_files;
          head = [SummaryHeader, TotalFiles total_files, TestsPassed passed_files,
                  TestsFailed failed_files]
      in if total_files = 0 then (head, Some ZeroDivisionError)
         else (head @ [SuccessRate passed_files total_files]
                 @ map (\<lambda>(filename, success). DetailLine filename success) (sort test_results)
                 @ [if failed_files = 0 then AllPassed else SomeFailed failed_files, Completed],
               None))"

text \<open>The part of \<^verbatim>\<open>main\<close> from "Starting file tests" on.\<close>

definition run_suite ::
  "nat \<Rightarrow> (string \<Rightarrow> error + ustr) \<Rightarrow> (ustr \<Rightarrow> error + node) \<Rightarrow> string list
     \<Rightarrow> event list \<times> error option" where
  "run_suite limit rd parser move_files =
     (case run_files limit rd parser (sort move_files) [] of
        (out, test_results) \<Rightarrow>
          (case summary test_results of (out', r) \<Rightarrow> (StartTests # out @ out', r)))"

text \<open>\<^verbatim>\<open>move_language.name or 'move_on_aptos'\<close>\<close>

definition display_name :: "env \<Rightarrow> string" where
  "display_name e =
     (case language_name e of None \<Rightarrow> ''move_on_aptos''
      | Some n \<Rightarrow> if n = [] then ''move_on_aptos'' else n)"

text \<open>
  The two handlers of \<^verbatim>\<open>main\<close>: \<^verbatim>\<open>except ImportError\<close>, then
  \<^verbatim>\<open>except Exception\<close>.
\<close>

definition handler :: "error \<Rightarrow> event" where
  "handler err = (if err = ImportError then ImportErrorMsg err else OtherErrorMsg err)"

definition main :: "env \<Rightarrow> event list" where
  "main e =
     Banner #
     (case parser_setup e of
        ImportFault err \<Rightarrow> [handler err]
      | ConstructFault err \<Rightarrow> [ParserInit, handler err]
      | Ready parser \<Rightarrow>
          [ParserInit, ParserCreated, LanguageName (display_name e)]
          @ (if \<not> dir_exists e then [DirNotFound test_dir]
             else if glob_result e = [] then [NoMoveFiles test_dir]
             else FoundFiles (int (length (glob_result e)))
                  # map (\<lambda>(i, file_path). FoundFile i (basename file_path))
                      (py_enumerate 1 (glob_result e))
                  @ (case run_suite (frames e) (read_file e) parser (glob_result e) of
                       (out, None) \<Rightarrow> out
                     | (out, Some err) \<Rightarrow> out @ [handler err])))"

section \<open>Concrete inputs\<close>

text \<open>A tree without error nodes: a module with two identifiers.\<close>

definition tree_ok :: node where
  "tree_ok = Node ''source_file'' (Some [0x61, 0x0A, 0x62]) (Point 0 0) (Point 2 0) False
     [Node ''module'' None (Point 0 0) (Point 1 0) False
        [Node ''ident'' (Some [0xC3, 0xA9]) (Point 0 3) (Point 0 5) False [],
         Node ''ident'' (Some [0x62]) (Point 1 0) (Point 1 1) False []]]"

text \<open>A tree with four error nodes, one of them below another.\<close>

definition tree_err :: node where
  "tree_err = Node ''source_file'' (Some [0x61, 0x0A, 0x62]) (Point 0 0) (Point 2 0) True
     [Node ''module'' None (Point 0 0) (Point 1 0) True
        [Node ''ERROR'' (Some [0xC3, 0xA9]) (Point 0 3) (Point 0 5) True [],
         Node ''ident'' (Some [0x62]) (Point 1 0) (Point 1 1) False []],
      Node ''ERROR'' None (Point 1 4) (Point 1 5) True
        [Node ''ERROR'' (Some [0x7B]) (Point 1 4) (Point 1 5) True []],
      Node ''ERROR'' (Some [0x7D]) (Point 1 7) (Point 1 8) True []]"

text \<open>
  A tree whose error flag is set although no node has the type "ERROR": the parser
  recovered by inserting the closing brace that the text lacks, and the inserted node
  has the type of a brace and no text.
\<close>

definition tree_missing :: node where
  "tree_missing = Node ''source_file'' (Some [0x6D, 0x20, 0x7B]) (Point 0 0) (Point 0 3) True
     [Node ''module'' (Some [0x6D, 0x20, 0x7B]) (Point 0 0) (Point 0 3) True
        [Node ''ident'' (Some [0x6D]) (Point 0 0) (Point 0 1) False [],
         Node ''{'' (Some [0x7B]) (Point 0 2) (Point 0 3) False [],
         Node ''}'' (Some []) (Point 0 3) (Point 0 3) True []]]"

text \<open>
  A tree of \<open>n + 1\<close> levels, each node the only child of the one above, as nested
  parentheses parse; no node has the type "ERROR", and the flag is the same at every
  node.
\<close>

fun chain :: "bool \<Rightarrow> nat \<Rightarrow> node" where
  "chain he 0 = Node ''expr'' None (Point 0 0) (Point 0 0) he []"
| "chain he (Suc n) = Node ''expr'' None (Point 0 0) (Point 0 0) he [chain he n]"

section \<open>Reading the walk and the report\<close>

text \<open>
  The nodes \<^verbatim>\<open>analyze_node\<close> reaches, each with its depth, in the order of the walk: a
  node, then (while the depth is below the bound) the nodes of its children from left to
  right.
\<close>

fun shown :: "node \<Rightarrow> int \<Rightarrow> int \<Rightarrow> (node \<times> int) list" where
  "shown (Node ty tx sp ep he cs) depth max_depth =
     (Node ty tx sp ep he cs, depth)
     # (if depth < max_depth then concat (map (\<lambda>c. shown c (depth + 1) max_depth) cs)
        else [])"

text \<open>
  Printing a sequence of lines of which some fault: the lines before the first fault are
  printed, the fault ends the sequence, and nothing stands in for the line that faulted.
\<close>

fun collect :: "(error + event) list \<Rightarrow> event list \<times> error option" where
  "collect [] = ([], None)"
| "collect (Inl e # rest) = ([], Some e)"
| "collect (Inr l # rest) = (case collect rest of (out, r) \<Rightarrow> (l # out, r))"

text \<open>The locations and the counts of error nodes that an output reports.\<close>

definition locations :: "event list \<Rightarrow> (int \<times> int \<times> int) list" where
  "locations out =
     List.map_filter (\<lambda>ev. case ev of ErrorLocation i l c \<Rightarrow> Some (i, l, c) | _ \<Rightarrow> None) out"

definition error_counts :: "event list \<Rightarrow> int list" where
  "error_counts out =
     List.map_filter (\<lambda>ev. case ev of ErrorCount c \<Rightarrow> Some c | _ \<Rightarrow> None) out"

text \<open>The error nodes of a tree in the order of the pre-order walk.\<close>

definition error_nodes :: "node \<Rightarrow> node list" where
  "error_nodes root = filter is_error_tag (preorder root)"

text \<open>
  What the claim expects of the report: for the first three error nodes in the order of
  the walk, the rank from 1 and the start row and column, each plus 1.
\<close>

definition expected_locations :: "node \<Rightarrow> (int \<times> int \<times> int) list" where
  "expected_locations root =
     map (\<lambda>(i, n). (i, row (start_point n) + 1, column (start_point n) + 1))
       (py_enumerate 1 (take 3 (error_nodes root)))"

text \<open>The text of a node is absent, empty, or decodes.\<close>

definition decodes :: "node \<Rightarrow> bool" where
  "decodes n =
     (case truthy_text n of None \<Rightarrow> True
      | Some bs \<Rightarrow> (case decode_utf8 bs of Inl e \<Rightarrow> False | Inr s \<Rightarrow> True))"

text \<open>
  A tree without error nodes over the two bytes of the source text "\<^verbatim>\<open>U+00E9\<close>": the
  root spans both bytes, its child only the first one, which is no UTF-8 on its own.
\<close>

definition tree_bad_text :: node where
  "tree_bad_text = Node ''source_file'' (Some [0xC3, 0xA9]) (Point 0 0) (Point 0 2) False
     [Node ''module'' (Some [0xC3]) (Point 0 0) (Point 0 1) False []]"

text \<open>The one-based location of an error node of a given rank.\<close>

definition loc_of :: "int \<times> node \<Rightarrow> int \<times> int \<times> int" where
  "loc_of = (\<lambda>(i, n). (i, row (start_point n) + 1, column (start_point n) + 1))"

section \<open>Events of the suite\<close>

text \<open>
  The two events that only the summary, or a fault that reaches the last handler of
  \<^verbatim>\<open>main\<close>, can print: the success rate and the report of an unexpected fault.
\<close>

definition suite_level :: "event \<Rightarrow> bool" where
  "suite_level ev =
     (case ev of SuccessRate a b \<Rightarrow> True | OtherErrorMsg x \<Rightarrow> True | _ \<Rightarrow> False)"

text \<open>Three environments: no directory, one file that parses, two files found out of order.\<close>

definition env_missing_dir :: env where
  "env_missing_dir = \<lparr>parser_setup = Ready (\<lambda>code. Inr tree_ok), frames = 997,
     language_name = None, dir_exists = False, glob_result = [],
     read_file = (\<lambda>p. Inl OSError)\<rparr>"

definition env_one_file :: env where
  "env_one_file = \<lparr>parser_setup = Ready (\<lambda>code. Inr tree_ok), frames = 997,
     language_name = Some ''move'', dir_exists = True,
     glob_result = [''move_test_files/a.move''], read_file = (\<lambda>p. Inr [120])\<rparr>"

definition env_two_files :: env where
  "env_two_files = \<lparr>parser_setup = Ready (\<lambda>code. Inr (if code = [120] then tree_ok else tree_err)),
     frames = 997, language_name = Some ''move'', dir_exists = True,
     glob_result = [''move_test_files/b.move'', ''move_test_files/a.move''],
     read_file = (\<lambda>p. if p = ''move_test_files/a.move'' then Inr [120] else Inr [121])\<rparr>"

section \<open>Properties of \<^verbatim>\<open>find_errors\<close>\<close>

lemma fold_max_le: "fold max xs a \<le> k \<longleftrightarrow> a \<le> k \<and> (\<forall>x \<in> set xs. x \<le> (k::nat))"
  by (induction xs arbitrary: a) auto

lemma height_le_Suc:
  "height (Node ty tx sp ep he cs) \<le> Suc k \<longleftrightarrow> (\<forall>c \<in> set cs. height c \<le> k)"
  by (simp add: fold_max_le)

lemma height_pos: "0 < height t"
  by (cases t) simp

lemma error_nodes_Node:
  "error_nodes (Node ty tx sp ep he cs) =
     (if ty = ''ERROR'' then [Node ty tx sp ep he cs] else []) @ concat (map error_nodes cs)"
  by (simp add: error_nodes_def [abs_def] is_error_tag_def filter_concat comp_def)

lemma find_errors_height:
  "find_errors k t = (if height t \<le> k then Inr (error_nodes t) else Inl RecursionError)"
  "find_errors_children k cs acc =
     (if \<forall>c \<in> set cs. height c \<le> k then Inr (acc @ concat (map error_nodes cs))
      else Inl RecursionError)"
proof (induction k t and k cs acc rule: find_errors_find_errors_children.induct)
  case (1 node)
  show ?case
    using height_pos [of node] by simp
next
  case (2 k ty tx sp ep he cs)
  show ?case
    unfolding find_errors.simps 2 height_le_Suc error_nodes_Node by simp
next
  case (3 k errors)
  show ?case by simp
next
  case (4 k child rest errors)
  show ?case
  proof (cases "height child \<le> k")
    case True
    then have c: "find_errors k child = Inr (error_nodes child)"
      using 4(1) by simp
    show ?thesis
      using True c 4(2) [OF c] by simp
  next
    case False
    then have "find_errors k child = Inl RecursionError"
      using 4(1) by simp
    with False show ?thesis by simp
  qed
qed

lemma height_chain: "height (chain he n) = Suc n"
  by (induction n) simp_all

lemma chain_types: "list_all (\<lambda>n. ntype n = ''expr'') (preorder (chain he n))"
  by (induction n) simp_all

text \<open>
  Claim C1, as the code has it. For every syntax tree whose number of levels does not
  exceed the number of nested calls available, \<^verbatim>\<open>find_errors\<close> returns exactly the
  nodes whose type is "ERROR", in the order of the pre-order walk (a node before its
  children, the children from left to right), and the empty list exactly when no node
  of the tree has that type; the root is treated like every other node. For a deeper
  tree the walk raises \<open>RecursionError\<close> and returns no list.
\<close>

theorem find_errors_exact:
  "find_errors limit t =
     (if height t \<le> limit then Inr (filter (\<lambda>n. ntype n = ''ERROR'') (preorder t))
      else Inl RecursionError)
   \<and> (height t \<le> limit \<longrightarrow>
        (find_errors limit t = Inr [] \<longleftrightarrow> (\<forall>n \<in> set (preorder t). ntype n \<noteq> ''ERROR'')))"
  by (simp add: find_errors_height(1) error_nodes_def is_error_tag_def [abs_def]
      filter_empty_conv)

theorem find_errors_exact_witness:
  "find_errors 997 tree_err =
     Inr [Node ''ERROR'' (Some [0xC3, 0xA9]) (Point 0 3) (Point 0 5) True [],
          Node ''ERROR'' None (Point 1 4) (Point 1 5) True
            [Node ''ERROR'' (Some [0x7B]) (Point 1 4) (Point 1 5) True []],
          Node ''ERROR'' (Some [0x7B]) (Point 1 4) (Point 1 5) True [],
          Node ''ERROR'' (Some [0x7D]) (Point 1 7) (Point 1 8) True []]
   \<and> height tree_ok \<le> 997
   \<and> list_all (\<lambda>n. ntype n \<noteq> ''ERROR'') (preorder tree_ok)
   \<and> find_errors 997 tree_ok = Inr []"
  using find_errors_exact [of 997 tree_err] find_errors_exact [of 997 tree_ok]
  by (simp add: tree_err_def tree_ok_def)

text \<open>
  The interpreter allows 1000 nested calls unless told otherwise, so at most 1000 are
  available to the walk. A tree of 1001 levels without any error node: the walk does not
  return the empty list, it raises.
\<close>

theorem find_errors_deep_tree:
  "list_all (\<lambda>n. ntype n \<noteq> ''ERROR'') (preorder (chain False 1000))
   \<and> find_errors 1000 (chain False 1000) = Inl RecursionError"
proof -
  have "list_all (\<lambda>n. ntype n \<noteq> ''ERROR'') (preorder (chain False 1000))"
    using chain_types [of False 1000] by (simp add: list_all_iff)
  then show ?thesis
    by (simp add: find_errors_height(1) height_chain)
qed

section \<open>Properties of \<^verbatim>\<open>count_node_types\<close>\<close>

lemma visit_height:
  "visit k t tc =
     (if height t \<le> k then Inr (fold bump (map ntype (preorder t)) tc)
      else Inl RecursionError)"
  "visit_children k cs tc =
     (if \<forall>c \<in> set cs. height c \<le> k
      then Inr (fold bump (concat (map (\<lambda>c. map ntype (preorder c)) cs)) tc)
      else Inl RecursionError)"
proof (induction k t tc and k cs tc rule: visit_visit_children.induct)
  case (1 n type_counts)
  show ?case
    using height_pos [of n] by simp
next
  case (2 k ty tx sp ep he cs type_counts)
  show ?case
    unfolding visit.simps 2 height_le_Suc by (simp add: map_concat comp_def)
next
  case (3 k type_counts)
  show ?case by simp
next
  case (4 k child rest type_counts)
  show ?case
  proof (cases "height child \<le> k")
    case True
    then have c: "visit k child type_counts =
                    Inr (fold bump (map ntype (preorder child)) type_counts)"
      using 4(1) by simp
    show ?thesis
      using True c 4(2) [OF c] by simp
  next
    case False
    then have "visit k child type_counts = Inl RecursionError"
      using 4(1) by simp
    with False show ?thesis by simp
  qed
qed

lemma count_node_types_height:
  "count_node_types limit t =
     (if height t < limit then Inr (fold bump (map ntype (preorder t)) [])
      else Inl RecursionError)"
  by (cases limit) (simp_all add: count_node_types_def visit_height(1) less_Suc_eq_le)

lemma sum_bump: "sum_list (map snd (bump k tc)) = sum_list (map snd tc) + 1"
  by (induction tc) (auto simp: bump_def dict_get_def)

lemma sum_fold_bump:
  "sum_list (map snd (fold bump ks tc)) = sum_list (map snd tc) + int (length ks)"
  by (induction ks arbitrary: tc) (auto simp: sum_bump)

lemma dict_get_bump:
  "dict_get (bump a tc) k 0 = (if k = a then dict_get tc k 0 + 1 else dict_get tc k 0)"
  by (simp add: bump_def dict_get_def update_conv')

lemma dict_get_fold_bump:
  "dict_get (fold bump ks tc) k 0 = dict_get tc k 0 + int (count_list ks k)"
  by (induction ks arbitrary: tc) (auto simp: dict_get_bump)

lemma keys_fold_bump: "fst ` set (fold bump ks tc) = fst ` set tc \<union> set ks"
  by (induction ks arbitrary: tc) (auto simp: bump_def dom_update)

lemma distinct_fold_bump:
  "distinct (map fst tc) \<Longrightarrow> distinct (map fst (fold bump ks tc))"
  by (induction ks arbitrary: tc) (auto simp: bump_def distinct_update)

lemma set_update_cases: "p \<in> set (AList.update k v al) \<Longrightarrow> p = (k, v) \<or> p \<in> set al"
  by (induction al) (auto split: if_splits)

lemma positive_bump:
  assumes "\<forall>p \<in> set tc. 1 \<le> snd p"
  shows "\<forall>p \<in> set (bump k tc). 1 \<le> snd p"
proof
  fix p assume "p \<in> set (bump k tc)"
  then consider "p = (k, dict_get tc k 0 + 1)" | "p \<in> set tc"
    unfolding bump_def by (auto dest: set_update_cases)
  then show "1 \<le> snd p"
  proof cases
    case 1
    have "0 \<le> dict_get tc k 0"
      using assms by (auto simp: dict_get_def split: option.splits dest!: map_of_SomeD)
    with 1 show ?thesis by simp
  next
    case 2
    with assms show ?thesis by blast
  qed
qed

lemma positive_fold_bump:
  "\<forall>p \<in> set tc. 1 \<le> snd p \<Longrightarrow> \<forall>p \<in> set (fold bump ks tc). 1 \<le> snd p"
proof (induction ks arbitrary: tc)
  case Nil
  then show ?case by simp
next
  case (Cons k ks)
  from Cons.prems have "\<forall>p \<in> set (bump k tc). 1 \<le> snd p"
    by (rule positive_bump)
  then have "\<forall>p \<in> set (fold bump ks (bump k tc)). 1 \<le> snd p"
    by (rule Cons.IH)
  then show ?case by simp
qed

text \<open>
  Claim C4, as the code has it. For every tree whose number of levels is below the
  number of nested calls available, the census is what counting the types of the
  pre-order walk gives, one count per node of the walk: the counts add up to the number
  of nodes of the tree, and the count stored for a type is the number of nodes of that
  type (zero when the type is not a key). For a deeper tree the walk ends as well, with
  \<open>RecursionError\<close> and without a census.
\<close>

theorem census_counts_every_node_once:
  "count_node_types limit t =
     (if height t < limit then Inr (fold bump (map ntype (preorder t)) [])
      else Inl RecursionError)
   \<and> (\<forall>census. count_node_types limit t = Inr census \<longrightarrow>
         sum_list (map snd census) = int (length (preorder t))
         \<and> (\<forall>k. dict_get census k 0 = int (count_list (map ntype (preorder t)) k)))"
proof -
  have "dict_get ([] :: (string \<times> int) list) k 0 = 0" for k
    by (simp add: dict_get_def)
  then show ?thesis
    by (auto simp: count_node_types_height sum_fold_bump dict_get_fold_bump
        split: if_splits)
qed

theorem census_counts_every_node_once_witness:
  "count_node_types 997 tree_ok = Inr [(''source_file'', 1), (''module'', 1), (''ident'', 2)]
   \<and> sum_list (map snd [(''source_file'', 1::int), (''module'', 1), (''ident'', 2)])
       = int (length (preorder tree_ok))
   \<and> dict_get [(''source_file'', 1::int), (''module'', 1), (''ident'', 2)] ''ident'' 0
       = int (count_list (map ntype (preorder tree_ok)) ''ident'')"
proof -
  have c: "count_node_types 997 tree_ok =
             Inr [(''source_file'', 1), (''module'', 1), (''ident'', 2)]"
    by (simp add: count_node_types_height tree_ok_def bump_def dict_get_def)
  show ?thesis
    using census_counts_every_node_once [of 997 tree_ok] c by simp
qed

text \<open>
  A tree of 1001 levels, with at most 1000 nested calls available: the walk does not
  visit every node, it raises and no census is returned.
\<close>

theorem census_deep_tree:
  "count_node_types 1000 (chain False 1000) = Inl RecursionError"
  by (simp add: count_node_types_height height_chain)

text \<open>
  Claim C10. The keys of a census that \<^verbatim>\<open>count_node_types\<close> returns are exactly the
  types that occur in the tree, no key occurs twice, and every stored count is at
  least 1.
\<close>

theorem census_keys_and_counts:
  "count_node_types limit t = Inr census \<Longrightarrow>
     fst ` set census = ntype ` set (preorder t)
     \<and> distinct (map fst census)
     \<and> (\<forall>p \<in> set census. 1 \<le> snd p)"
proof -
  assume "count_node_types limit t = Inr census"
  then have c: "census = fold bump (map ntype (preorder t)) []"
    by (simp add: count_node_types_height split: if_splits)
  have "\<forall>p \<in> set (fold bump (map ntype (preorder t)) []). 1 \<le> snd p"
    by (rule positive_fold_bump) simp
  then show ?thesis
    unfolding c by (simp add: keys_fold_bump distinct_fold_bump)
qed

theorem census_keys_and_counts_witness:
  "count_node_types 997 tree_ok = Inr [(''source_file'', 1), (''module'', 1), (''ident'', 2)]
   \<and> fst ` set [(''source_file'', 1::int), (''module'', 1), (''ident'', 2)]
       = ntype ` set (preorder tree_ok)
   \<and> (1::int) \<le> snd (''ident'', 2::int)"
proof -
  have c: "count_node_types 997 tree_ok =
             Inr [(''source_file'', 1), (''module'', 1), (''ident'', 2)]"
    by (simp add: count_node_types_height tree_ok_def bump_def dict_get_def)
  show ?thesis
    using census_keys_and_counts [OF c] c by simp
qed

section \<open>Properties of the capped previews\<close>

lemma replace_nl_id: "10 \<notin> set s \<Longrightarrow> replace_nl s = s"
  by (induction s) (auto simp: replace_nl_def)

text \<open>
  Claim C3, as the code has it. A preview line longer than 45 characters is cut to its
  first 45 characters followed by the marker "...", and a line of at most 45 characters
  is reproduced unchanged. An error excerpt is the first 30 characters of the text, with
  no marker in either case. A node text whose first 50 characters hold no line feed is
  cut to 50 characters followed by the marker when it is longer than 50, and reproduced
  unchanged when it is shorter than 50.
\<close>

theorem truncation_laws:
  "(length l > 45 \<longrightarrow> line_preview l = take 45 l @ ellipsis)
   \<and> (length l \<le> 45 \<longrightarrow> line_preview l = l)
   \<and> error_text s = take 30 s
   \<and> (length s \<le> 30 \<longrightarrow> error_text s = s)
   \<and> (10 \<notin> set (take 50 s) \<longrightarrow>
        (length s > 50 \<longrightarrow> text_preview s = take 50 s @ ellipsis)
        \<and> (length s < 50 \<longrightarrow> text_preview s = s))"
  by (auto simp: line_preview_def error_text_def text_preview_def replace_nl_id Let_def)

theorem truncation_laws_witness:
  "line_preview (replicate 46 97) = replicate 45 97 @ ellipsis
   \<and> line_preview [97, 98] = [97, 98]
   \<and> error_text [97, 98] = [97, 98]
   \<and> text_preview (replicate 51 97) = replicate 50 97 @ ellipsis
   \<and> text_preview [97, 98] = [97, 98]"
  using truncation_laws [of "replicate 46 97" "replicate 51 97"]
    truncation_laws [of "[97, 98]" "[97, 98]"]
  by (simp add: in_set_replicate)

text \<open>
  At the cap the node preview differs from the other two: a text of exactly 50
  characters is followed by the marker although nothing was cut.
\<close>

lemma text_preview_at_cap: "text_preview (replicate 50 97) = replicate 50 97 @ ellipsis"
  by (simp add: text_preview_def replace_nl_id)

text \<open>
  An error text of 31 characters is longer than the cap of 30: it is cut to 30
  characters and no marker follows.
\<close>

theorem error_excerpt_has_no_marker:
  "length (replicate 31 (97::nat)) > 30
   \<and> error_text (replicate 31 97) = replicate 30 97
   \<and> error_text (replicate 31 97) \<noteq> take 30 (replicate 31 97) @ ellipsis"
  by (simp add: error_text_def ellipsis_def)

section \<open>Properties of \<^verbatim>\<open>analyze_node\<close> and of the probe\<close>

lemma collect_append:
  "collect (xs @ ys) =
     (case collect xs of
        (out, Some e) \<Rightarrow> (out, Some e)
      | (out, None) \<Rightarrow> (case collect ys of (out', r) \<Rightarrow> (out @ out', r)))"
  by (induction xs rule: collect.induct) (auto split: prod.splits option.splits)

lemma analyze_collect:
  "analyze_node n d m = collect (map (\<lambda>(n, d). node_line n d) (shown n d m))"
  "analyze_children cs d m =
     collect (concat (map (\<lambda>c. map (\<lambda>(n, d). node_line n d) (shown c d m)) cs))"
proof (induction n d m and cs d m rule: analyze_node_analyze_children.induct)
  case (1 ty tx sp ep he cs depth max_depth)
  show ?case
  proof (cases "node_line (Node ty tx sp ep he cs) depth")
    case (Inl e)
    then show ?thesis by simp
  next
    case (Inr l)
    show ?thesis
    proof (cases "depth < max_depth \<and> int (length cs) > 0")
      case True
      with 1 [OF Inr True] Inr show ?thesis
        by (simp add: map_concat comp_def)
    next
      case False
      with Inr show ?thesis by auto
    qed
  qed
next
  case (2 depth max_depth)
  show ?case by simp
next
  case (3 c cs depth max_depth)
  show ?case
  proof (cases "analyze_node c depth max_depth")
    case (Pair out r)
    show ?thesis
    proof (cases r)
      case None
      with Pair 3 show ?thesis
        by (simp add: collect_append split: prod.splits)
    next
      case (Some e)
      with Pair 3 show ?thesis
        by (simp add: collect_append)
    qed
  qed
qed

lemma decode_fault: "decode_utf8 bs = Inl e \<Longrightarrow> e = UnicodeDecodeError"
  by (auto simp: decode_utf8_def split: option.splits)

lemma node_line_fault: "node_line n d = Inl e \<Longrightarrow> e = UnicodeDecodeError"
  by (auto simp: node_line_def split: option.splits sum.splits dest: decode_fault)

lemma collect_fault:
  "Inl e \<in> set ls \<Longrightarrow> \<exists>e'. snd (collect ls) = Some e' \<and> Inl e' \<in> set ls
     \<and> length (fst (collect ls)) < length ls"
  by (induction ls rule: collect.induct) (auto split: prod.splits)

text \<open>
  Claim C9. When the file is read and parsed, the root has no error flag, and the text
  of a node that the structural render reaches (depth at most 2) does not decode as
  UTF-8, the fault leaves the walk: the lines of the nodes printed so far are all the
  walk prints, fewer than the nodes it would reach, with nothing in place of the line
  that faulted; the probe catches the fault, reports it and returns the verdict fail
  although \<^verbatim>\<open>has_error\<close> is false.
\<close>

theorem decoding_fault_fails_probe:
  assumes "rd p = Inr code" and "parser code = Inr root" and "\<not> has_error root"
    and "(n, d) \<in> set (shown root 0 2)"
    and "truthy_text n = Some bs" and "decode_utf8 bs = Inl e"
  shows "\<exists>out. analyze_node root 0 2 = (out, Some UnicodeDecodeError)
           \<and> analyze_node root 0 2 = collect (map (\<lambda>(n, d). node_line n d) (shown root 0 2))
           \<and> length out < length (shown root 0 2)
           \<and> test_move_file limit rd p parser =
               (TestingFile p # preview_report code
                  @ [ParseOk, RootType (ntype root), ChildCount (child_count root), AstHeader]
                  @ out @ [TestException UnicodeDecodeError],
                False)"
proof -
  let ?ls = "map (\<lambda>(n, d). node_line n d) (shown root 0 2)"
  have "node_line n d = Inl e"
    using assms(5,6) by (simp add: node_line_def)
  then have "Inl e \<in> set ?ls"
    using assms(4) by force
  then obtain e' where e': "snd (collect ?ls) = Some e'" "Inl e' \<in> set ?ls"
    and len: "length (fst (collect ?ls)) < length ?ls"
    using collect_fault by blast
  from e'(2) have "e' = UnicodeDecodeError"
    by (auto dest: node_line_fault [OF sym])
  with e'(1) have a: "analyze_node root 0 2 = (fst (collect ?ls), Some UnicodeDecodeError)"
    by (simp add: analyze_collect(1) prod_eq_iff)
  have "test_move_file limit rd p parser =
          (TestingFile p # preview_report code
             @ [ParseOk, RootType (ntype root), ChildCount (child_count root), AstHeader]
             @ fst (collect ?ls) @ [TestException UnicodeDecodeError],
           False)"
    using assms(1-3) a by (simp add: test_move_file_def success_report_def)
  with a len show ?thesis
    by (simp add: analyze_collect(1))
qed

theorem decoding_fault_fails_probe_witness:
  "test_move_file 997 (\<lambda>p. Inr [233]) ''a.move'' (\<lambda>code. Inr tree_bad_text) =
     (TestingFile ''a.move'' # preview_report [233]
        @ [ParseOk, RootType ''source_file'', ChildCount 1, AstHeader]
        @ [AstLine 0 ''source_file'' (Some [233])] @ [TestException UnicodeDecodeError],
      False)"
proof -
  let ?n = "Node ''module'' (Some [0xC3]) (Point 0 0) (Point 0 1) False []"
  have 1: "(?n, 1) \<in> set (shown tree_bad_text 0 2)"
    by (simp add: tree_bad_text_def)
  have 2: "truthy_text ?n = Some [0xC3]"
    by (simp add: truthy_text_def)
  have 3: "decode_utf8 [0xC3] = Inl UnicodeDecodeError"
    by (simp add: decode_utf8_def)
  have 4: "\<not> has_error tree_bad_text"
    by (simp add: tree_bad_text_def)
  have 5: "analyze_node tree_bad_text 0 2 =
             ([AstLine 0 ''source_file'' (Some [233])], Some UnicodeDecodeError)"
    by (simp add: tree_bad_text_def node_line_def truthy_text_def decode_utf8_def
        text_preview_def replace_nl_def cont_def)
  show ?thesis
    using decoding_fault_fails_probe [where limit = 997 and rd = "\<lambda>p. Inr [233]" and p = "''a.move''"
        and code = "[233]" and parser = "\<lambda>code. Inr tree_bad_text" and root = tree_bad_text,
        OF _ _ 4 1 2 3] 5
    by (simp add: tree_bad_text_def child_count_def)
qed

section \<open>The verdict of the probe\<close>

lemma run_files_all:
  "run_files limit rd parser files tr =
     (concat (map (\<lambda>p. fst (test_move_file limit rd p parser)) files),
      fold (\<lambda>p. AList.update (basename p) (snd (test_move_file limit rd p parser))) files tr)"
proof (induction files arbitrary: tr)
  case Nil
  show ?case by simp
next
  case (Cons a files)
  obtain out s where probe: "test_move_file limit rd a parser = (out, s)"
    by (cases "test_move_file limit rd a parser")
  show ?case
    using probe Cons.IH [of "AList.update (basename a) s tr"] by simp
qed

lemma keys_fold_update:
  "fst ` set (fold (\<lambda>p. AList.update (f p) (g p)) files tr) = fst ` set tr \<union> f ` set files"
  by (induction files arbitrary: tr) (auto simp: dom_update)

lemma run_files_keys:
  "fst ` set (snd (run_files limit rd parser files tr)) = fst ` set tr \<union> basename ` set files"
  by (simp add: run_files_all keys_fold_update)

lemma success_verdict:
  "snd (success_report limit root) = None \<longleftrightarrow>
     snd (analyze_node root 0 2) = None \<and> height root < limit"
proof (cases "analyze_node root 0 2")
  case (Pair out r)
  then show ?thesis
    by (cases r) (simp_all add: success_report_def count_node_types_height)
qed

lemma probe_parsed:
  assumes "rd p = Inr code" and "parser code = Inr root"
  shows "snd (test_move_file limit rd p parser) =
           (\<not> has_error root \<and> snd (analyze_node root 0 2) = None \<and> height root < limit)"
proof (cases "has_error root")
  case True
  obtain out r where "error_report limit root = (out, r)"
    by (cases "error_report limit root")
  with True assms show ?thesis
    by (cases r) (simp_all add: test_move_file_def)
next
  case False
  obtain out r where sr: "success_report limit root = (out, r)"
    by (cases "success_report limit root")
  then have "(r = None) = (snd (analyze_node root 0 2) = None \<and> height root < limit)"
    using success_verdict [of limit root] by simp
  with sr False assms show ?thesis
    by (cases r) (simp_all add: test_move_file_def)
qed

lemma probe_shape:
  "(\<exists>out. fst (test_move_file limit rd p parser) = TestingFile p # out)
   \<and> (last (fst (test_move_file limit rd p parser))
         = TestResult (snd (test_move_file limit rd p parser))
       \<or> (\<exists>e. last (fst (test_move_file limit rd p parser)) = TestException e)
           \<and> \<not> snd (test_move_file limit rd p parser))"
proof (cases "rd p")
  case (Inl e)
  then show ?thesis by (simp add: test_move_file_def)
next
  case code: (Inr code)
  show ?thesis
  proof (cases "parser code")
    case (Inl e)
    with code show ?thesis by (simp add: test_move_file_def)
  next
    case (Inr root)
    let ?rep = "if has_error root then error_report limit root else success_report limit root"
    obtain out r where rep: "?rep = (out, r)"
      by (cases ?rep)
    with code Inr show ?thesis
      by (cases r) (simp_all add: test_move_file_def)
  qed
qed

text \<open>
  Claim C5, as the code has it. The verdict is pass exactly when the file is read, the
  parser returns a tree, \<^verbatim>\<open>has_error\<close> is false at its root, the structural render
  ends without a decoding fault and the census ends without exhausting the nested calls
  available. A fault of the read or of the parser is caught inside the probe, reported
  and turned into the verdict fail. Every probe starts with the line of its file and
  ends either with its result line or with the report of a caught fault and the verdict
  fail; no fault leaves it. The loop over the files probes every file in turn, whatever
  the verdicts of the files before it, and stores for each the verdict of its own probe.
\<close>

theorem probe_verdict:
  "(snd (test_move_file limit rd p parser) \<longleftrightarrow>
      (\<exists>code root. rd p = Inr code \<and> parser code = Inr root \<and> \<not> has_error root
         \<and> snd (analyze_node root 0 2) = None \<and> height root < limit))
   \<and> (\<forall>e. rd p = Inl e \<longrightarrow>
         test_move_file limit rd p parser = ([TestingFile p, TestException e], False))
   \<and> (\<forall>code e. rd p = Inr code \<and> parser code = Inl e \<longrightarrow>
         test_move_file limit rd p parser =
           (TestingFile p # preview_report code @ [TestException e], False))
   \<and> (\<exists>out. fst (test_move_file limit rd p parser) = TestingFile p # out)
   \<and> (last (fst (test_move_file limit rd p parser))
         = TestResult (snd (test_move_file limit rd p parser))
       \<or> (\<exists>e. last (fst (test_move_file limit rd p parser)) = TestException e)
           \<and> \<not> snd (test_move_file limit rd p parser))
   \<and> run_files limit rd parser files tr =
       (concat (map (\<lambda>p. fst (test_move_file limit rd p parser)) files),
        fold (\<lambda>p. AList.update (basename p) (snd (test_move_file limit rd p parser)))
          files tr)"
proof -
  have "snd (test_move_file limit rd p parser) \<longleftrightarrow>
      (\<exists>code root. rd p = Inr code \<and> parser code = Inr root \<and> \<not> has_error root
         \<and> snd (analyze_node root 0 2) = None \<and> height root < limit)"
  proof (cases "rd p")
    case (Inl e)
    then show ?thesis by (simp add: test_move_file_def)
  next
    case code: (Inr code)
    show ?thesis
    proof (cases "parser code")
      case (Inl e)
      with code show ?thesis by (simp add: test_move_file_def)
    next
      case (Inr root)
      with code show ?thesis
        using probe_parsed [of rd p code parser root limit] by auto
    qed
  qed
  moreover have "\<forall>e. rd p = Inl e \<longrightarrow>
         test_move_file limit rd p parser = ([TestingFile p, TestException e], False)"
    by (simp add: test_move_file_def)
  moreover have "\<forall>code e. rd p = Inr code \<and> parser code = Inl e \<longrightarrow>
         test_move_file limit rd p parser =
           (TestingFile p # preview_report code @ [TestException e], False)"
    by (simp add: test_move_file_def)
  ultimately show ?thesis
    using probe_shape [of limit rd p parser] run_files_all [of limit rd parser files tr]
    by (intro conjI) blast+
qed

theorem probe_verdict_witness:
  "snd (test_move_file 997 (\<lambda>p. Inr [120]) ''a.move'' (\<lambda>code. Inr tree_ok))
   \<and> test_move_file 997 (\<lambda>p. Inl OSError) ''a.move'' (\<lambda>code. Inr tree_ok) =
       ([TestingFile ''a.move'', TestException OSError], False)
   \<and> test_move_file 997 (\<lambda>p. Inr [120]) ''a.move'' (\<lambda>code. Inl ParserFault) =
       (TestingFile ''a.move'' # preview_report [120] @ [TestException ParserFault], False)"
proof -
  have a: "snd (analyze_node tree_ok 0 2) = None"
    by (simp add: tree_ok_def node_line_def truthy_text_def decode_utf8_def cont_def)
  have b: "\<not> has_error tree_ok"
    by (simp add: tree_ok_def)
  have c: "height tree_ok < 997"
    by (simp add: tree_ok_def)
  note v = probe_verdict [of 997 _ "''a.move''" _ "[]" "[]"]
  have 1: "snd (test_move_file 997 (\<lambda>p. Inr [120]) ''a.move'' (\<lambda>code. Inr tree_ok))"
    using v [of "\<lambda>p. Inr [120]" "\<lambda>code. Inr tree_ok", THEN conjunct1] a b c by simp
  have 2: "test_move_file 997 (\<lambda>p. Inl OSError) ''a.move'' (\<lambda>code. Inr tree_ok) =
       ([TestingFile ''a.move'', TestException OSError], False)"
    using v [of "\<lambda>p. Inl OSError" "\<lambda>code. Inr tree_ok", THEN conjunct2, THEN conjunct1]
    by simp
  have 3: "test_move_file 997 (\<lambda>p. Inr [120]) ''a.move'' (\<lambda>code. Inl ParserFault) =
       (TestingFile ''a.move'' # preview_report [120] @ [TestException ParserFault], False)"
    using v [of "\<lambda>p. Inr [120]" "\<lambda>code. Inl ParserFault",
        THEN conjunct2, THEN conjunct2, THEN conjunct1]
    by simp
  from 1 2 3 show ?thesis
    by (intro conjI)
qed

text \<open>
  A file that is read and parsed into a tree whose root has no error flag, and whose
  verdict is fail all the same: the text of a node of the tree does not decode.
\<close>

theorem decode_fault_fails_clean_parse:
  "\<not> has_error tree_bad_text
   \<and> \<not> snd (test_move_file 997 (\<lambda>p. Inr [233]) ''a.move'' (\<lambda>code. Inr tree_bad_text))"
  by (simp add: test_move_file_def success_report_def tree_bad_text_def node_line_def
      truthy_text_def decode_utf8_def text_preview_def replace_nl_def cont_def)

section \<open>The report of the error nodes\<close>

lemma has_error_chain: "has_error (chain he n) = he"
  by (cases n) simp_all

lemma locations_simps:
  "locations [] = []"
  "locations (ErrorLocation i l c # out) = (i, l, c) # locations out"
  "locations (ErrorContent s # out) = locations out"
  "locations (TestingFile p # out) = locations out"
  "locations (ParseFailed # out) = locations out"
  "locations (ErrorCount n # out) = locations out"
  "locations (TestResult b # out) = locations out"
  "locations (TestException e # out) = locations out"
  "locations (xs @ ys) = locations xs @ locations ys"
  by (simp_all add: locations_def List.map_filter_def)

lemma error_counts_simps:
  "error_counts [] = []"
  "error_counts (ErrorLocation i l c # out) = error_counts out"
  "error_counts (ErrorContent s # out) = error_counts out"
  "error_counts (TestingFile p # out) = error_counts out"
  "error_counts (ParseFailed # out) = error_counts out"
  "error_counts (ErrorCount n # out) = n # error_counts out"
  "error_counts (TestResult b # out) = error_counts out"
  "error_counts (TestException e # out) = error_counts out"
  "error_counts (xs @ ys) = error_counts xs @ error_counts ys"
  by (simp_all add: error_counts_def List.map_filter_def)

lemma preview_report_silent:
  "locations (preview_report code) = [] \<and> error_counts (preview_report code) = []"
  by (auto simp: preview_report_def locations_def error_counts_def List.map_filter_def
      Let_def filter_empty_conv split_def)

lemma show_errors_locations:
  "prefix (locations (fst (show_errors xs))) (map loc_of xs)
   \<and> error_counts (fst (show_errors xs)) = []
   \<and> (list_all (\<lambda>(i, n). decodes n) xs \<longrightarrow>
        snd (show_errors xs) = None \<and> locations (fst (show_errors xs)) = map loc_of xs)"
proof (induction xs rule: show_errors.induct)
  case 1
  show ?case by (simp add: locations_simps error_counts_simps)
next
  case (2 i error_node rest)
  obtain out r where sr: "show_errors rest = (out, r)"
    by (cases "show_errors rest")
  let ?loc = "ErrorLocation i (row (start_point error_node) + 1)
                (column (start_point error_node) + 1)"
  have lo: "loc_of (i, error_node) =
              (i, row (start_point error_node) + 1, column (start_point error_node) + 1)"
    by (simp add: loc_of_def)
  show ?case
  proof (cases "truthy_text error_node")
    case None
    have ih: "prefix (locations out) (map loc_of rest) \<and> error_counts out = []
       \<and> (list_all (\<lambda>(i, n). decodes n) rest \<longrightarrow> r = None \<and> locations out = map loc_of rest)"
      using 2(1) [OF refl None] sr by simp
    have se: "show_errors ((i, error_node) # rest) = (?loc # out, r)"
      using None sr by simp
    have "decodes error_node"
      using None by (simp add: decodes_def)
    with ih show ?thesis
      unfolding se by (simp add: lo locations_simps error_counts_simps)
  next
    case (Some bs)
    show ?thesis
    proof (cases "decode_utf8 bs")
      case (Inl e)
      have se: "show_errors ((i, error_node) # rest) = ([?loc], Some e)"
        using Some Inl by simp
      have "\<not> decodes error_node"
        using Some Inl by (simp add: decodes_def)
      then show ?thesis
        unfolding se by (simp add: lo locations_simps error_counts_simps)
    next
      case (Inr s)
      have ih: "prefix (locations out) (map loc_of rest) \<and> error_counts out = []
         \<and> (list_all (\<lambda>(i, n). decodes n) rest \<longrightarrow> r = None \<and> locations out = map loc_of rest)"
        using 2(2) [OF refl Some Inr] sr by simp
      have se: "show_errors ((i, error_node) # rest) =
                  (?loc # ErrorContent (error_text s) # out, r)"
        using Some Inr sr by simp
      have "decodes error_node"
        using Some Inr by (simp add: decodes_def)
      with ih show ?thesis
        unfolding se by (simp add: lo locations_simps error_counts_simps)
    qed
  qed
qed

lemma length_py_enumerate: "length (py_enumerate i xs) = length xs"
  by (induction xs arbitrary: i) auto

lemma list_all_py_enumerate:
  "list_all (\<lambda>(i, n). P n) (py_enumerate i xs) = list_all P xs"
  by (induction xs arbitrary: i) auto

lemma error_report_deep:
  "height root > limit \<Longrightarrow> error_report limit root = ([ParseFailed], Some RecursionError)"
  by (simp add: error_report_def find_errors_height(1))

text \<open>
  Claim C6, as the code has it. When the file is read and parsed, \<^verbatim>\<open>has_error\<close> is
  true at the root and the tree has no more levels than nested calls are available, the
  probe reports one count of error nodes, the number of nodes of type "ERROR"; the
  locations it reports are at most three and are an initial part of the expected ones:
  rank, start row plus 1 and start column plus 1 of the first three error nodes in the
  order of the walk. They are all of the expected ones when the texts of those nodes
  decode. When the tree is deeper, the probe reports the fault of the walk and neither a
  count nor a location, and the verdict is fail.
\<close>

theorem error_report_shown:
  assumes "rd p = Inr code" and "parser code = Inr root" and "has_error root"
  shows "(height root \<le> limit \<longrightarrow>
            error_counts (fst (test_move_file limit rd p parser))
              = [int (length (error_nodes root))]
            \<and> prefix (locations (fst (test_move_file limit rd p parser)))
                (expected_locations root)
            \<and> length (locations (fst (test_move_file limit rd p parser))) \<le> 3
            \<and> (list_all decodes (take 3 (error_nodes root)) \<longrightarrow>
                 locations (fst (test_move_file limit rd p parser))
                   = expected_locations root))
     \<and> (limit < height root \<longrightarrow>
            test_move_file limit rd p parser =
              (TestingFile p # preview_report code
                 @ [ParseFailed, TestException RecursionError], False))"
proof (intro conjI impI)
  assume "limit < height root"
  then show "test_move_file limit rd p parser =
              (TestingFile p # preview_report code
                 @ [ParseFailed, TestException RecursionError], False)"
    using assms by (simp add: test_move_file_def error_report_deep)
next
  assume h: "height root \<le> limit"
  let ?xs = "py_enumerate 1 (take 3 (error_nodes root))"
  let ?out = "fst (test_move_file limit rd p parser)"
  obtain out r where se: "show_errors ?xs = (out, r)"
    by (cases "show_errors ?xs")
  have er: "error_report limit root =
              ([ParseFailed, ErrorCount (int (length (error_nodes root)))] @ out, r)"
    using se h by (simp add: error_report_def find_errors_height(1))
  have exp: "expected_locations root = map loc_of ?xs"
    by (simp add: expected_locations_def loc_of_def)
  have out: "locations ?out = locations out
      \<and> error_counts ?out = int (length (error_nodes root)) # error_counts out"
    using assms er preview_report_silent [of code]
    by (cases r) (simp_all add: test_move_file_def locations_simps error_counts_simps)
  have all: "list_all decodes (take 3 (error_nodes root))
               = list_all (\<lambda>(i, n). decodes n) ?xs"
    by (simp add: list_all_py_enumerate)
  have pre: "prefix (locations out) (map loc_of ?xs)"
    and cnt: "error_counts out = []"
    and full: "list_all (\<lambda>(i, n). decodes n) ?xs \<longrightarrow> locations out = map loc_of ?xs"
    using show_errors_locations [of ?xs] se by simp_all
  have "length (locations out) \<le> length (map loc_of ?xs)"
    using pre by (rule prefix_length_le)
  then have len: "length (locations out) \<le> 3"
    by (simp add: length_py_enumerate)
  show "error_counts ?out = [int (length (error_nodes root))]"
    using out cnt by simp
  show "prefix (locations ?out) (expected_locations root)"
    using out exp pre by simp
  show "length (locations ?out) \<le> 3"
    using out len by simp
  show "locations ?out = expected_locations root"
    if "list_all decodes (take 3 (error_nodes root))"
    using that out exp all full by simp
qed

theorem error_report_shown_witness:
  "has_error tree_err \<and> height tree_err \<le> 997
   \<and> error_counts (fst (test_move_file 997 (\<lambda>p. Inr [120]) ''a.move'' (\<lambda>code. Inr tree_err)))
       = [4]
   \<and> locations (fst (test_move_file 997 (\<lambda>p. Inr [120]) ''a.move'' (\<lambda>code. Inr tree_err)))
       = [(1, 1, 4), (2, 2, 5), (3, 2, 5)]
   \<and> has_error (chain True 1000) \<and> 1000 < height (chain True 1000)
   \<and> test_move_file 1000 (\<lambda>p. Inr [120]) ''a.move'' (\<lambda>code. Inr (chain True 1000)) =
       (TestingFile ''a.move'' # preview_report [120]
          @ [ParseFailed, TestException RecursionError], False)"
proof -
  have h: "has_error tree_err"
    by (simp add: tree_err_def)
  have ht: "height tree_err \<le> 997"
    by (simp add: tree_err_def)
  have en: "error_nodes tree_err =
     [Node ''ERROR'' (Some [0xC3, 0xA9]) (Point 0 3) (Point 0 5) True [],
      Node ''ERROR'' None (Point 1 4) (Point 1 5) True
        [Node ''ERROR'' (Some [0x7B]) (Point 1 4) (Point 1 5) True []],
      Node ''ERROR'' (Some [0x7B]) (Point 1 4) (Point 1 5) True [],
      Node ''ERROR'' (Some [0x7D]) (Point 1 7) (Point 1 8) True []]"
    by (simp add: error_nodes_def tree_err_def is_error_tag_def)
  have d: "list_all decodes (take 3 (error_nodes tree_err))"
    unfolding en by (simp add: decodes_def truthy_text_def decode_utf8_def cont_def)
  have e: "expected_locations tree_err = [(1, 1, 4), (2, 2, 5), (3, 2, 5)]"
    unfolding expected_locations_def en by simp
  have c: "has_error (chain True 1000)"
    by (simp add: has_error_chain)
  have hc: "1000 < height (chain True 1000)"
    by (simp add: height_chain)
  note a = error_report_shown [where limit = 997 and rd = "\<lambda>p. Inr [120]" and p = "''a.move''"
        and code = "[120]" and parser = "\<lambda>code. Inr tree_err" and root = tree_err, OF _ _ h]
  note b = error_report_shown [where limit = 1000 and rd = "\<lambda>p. Inr [120]"
        and p = "''a.move''" and code = "[120]" and parser = "\<lambda>code. Inr (chain True 1000)"
        and root = "chain True 1000", OF _ _ c]
  show ?thesis
    using a b h ht d e c hc en by simp
qed

text \<open>
  A tree of 1001 levels with the error flag, with at most 1000 nested calls available:
  the probe reports no count of error nodes.
\<close>

theorem deep_tree_reports_no_count:
  "has_error (chain True 1000)
   \<and> error_counts
        (fst (test_move_file 1000 (\<lambda>p. Inr [120]) ''a.move'' (\<lambda>code. Inr (chain True 1000))))
       = []"
proof -
  have c: "has_error (chain True 1000)"
    by (simp add: has_error_chain)
  have "error_report 1000 (chain True 1000) = ([ParseFailed], Some RecursionError)"
    by (rule error_report_deep) (simp add: height_chain)
  then show ?thesis
    using c preview_report_silent [of "[120]"]
    by (simp add: test_move_file_def error_counts_simps)
qed

section \<open>The error flag and \<^verbatim>\<open>find_errors\<close>\<close>

lemma collect_lines:
  "ev \<in> set (fst (collect ls)) \<Longrightarrow> Inr ev \<in> set ls"
  by (induction ls rule: collect.induct) (auto split: prod.splits)

lemma analyze_node_lines:
  "ev \<in> set (fst (analyze_node n d m)) \<Longrightarrow> \<exists>depth ty pv. ev = AstLine depth ty pv"
proof -
  assume "ev \<in> set (fst (analyze_node n d m))"
  then have "Inr ev \<in> set (map (\<lambda>(n, d). node_line n d) (shown n d m))"
    unfolding analyze_collect(1) by (rule collect_lines)
  then obtain n' d' where "node_line n' d' = Inr ev"
    by auto
  then show ?thesis
    by (auto simp: node_line_def split: option.splits sum.splits)
qed

lemma error_counts_none:
  "(\<And>ev. ev \<in> set out \<Longrightarrow> \<forall>c. ev \<noteq> ErrorCount c) \<Longrightarrow> error_counts out = []"
  by (induction out) (auto simp: error_counts_def split: event.splits)

lemma success_report_no_count: "error_counts (fst (success_report limit root)) = []"
proof (rule error_counts_none)
  fix ev assume ev: "ev \<in> set (fst (success_report limit root))"
  obtain out r where a: "analyze_node root 0 2 = (out, r)"
    by (cases "analyze_node root 0 2")
  have lines: "\<forall>c. x \<noteq> ErrorCount c" if "x \<in> set out" for x
    using analyze_node_lines [of x root 0 2] a that by auto
  show "\<forall>c. ev \<noteq> ErrorCount c"
  proof (cases r)
    case (Some e)
    with a ev lines show ?thesis
      by (auto simp: success_report_def)
  next
    case None
    show ?thesis
    proof (cases "count_node_types limit root")
      case (Inl e)
      with None a ev lines show ?thesis
        by (auto simp: success_report_def)
    next
      case (Inr node_types)
      with None a ev lines show ?thesis
        by (auto simp: success_report_def)
    qed
  qed
qed

lemma error_count_reported:
  assumes "rd p = Inr code" and "parser code = Inr root" and "has_error root"
    and "height root \<le> limit"
  shows "error_counts (fst (test_move_file limit rd p parser))
           = [int (length (error_nodes root))]"
proof -
  let ?xs = "py_enumerate 1 (take 3 (error_nodes root))"
  obtain out r where se: "show_errors ?xs = (out, r)"
    by (cases "show_errors ?xs")
  have er: "error_report limit root =
              ([ParseFailed, ErrorCount (int (length (error_nodes root)))] @ out, r)"
    using se assms(4) by (simp add: error_report_def find_errors_height(1))
  have "error_counts out = []"
    using show_errors_locations [of ?xs] se by simp
  then show ?thesis
    using assms er preview_report_silent [of code]
    by (cases r) (simp_all add: test_move_file_def error_counts_simps)
qed

text \<open>
  Claim C2, as the code has it. The error flag is the parser's; the probe runs
  \<^verbatim>\<open>find_errors\<close> only when the flag is set. So whenever a probe reports a count of
  error nodes, the flag is true at the root, \<^verbatim>\<open>find_errors\<close> has returned the nodes
  of type "ERROR", and the count is their number. Within the nested calls available,
  \<^verbatim>\<open>find_errors\<close> returns a non-empty list exactly when some node has the type
  "ERROR". The flag does not imply such a node: when it is set and no node has that
  type, the probe reports a count of 0 and the verdict fail.
\<close>

theorem error_count_needs_flag:
  "(\<forall>c. c \<in> set (error_counts (fst (test_move_file limit rd p parser))) \<longrightarrow>
      (\<exists>code root. rd p = Inr code \<and> parser code = Inr root \<and> has_error root
         \<and> find_errors limit root = Inr (filter (\<lambda>n. ntype n = ''ERROR'') (preorder root))
         \<and> c = int (length (filter (\<lambda>n. ntype n = ''ERROR'') (preorder root)))))
   \<and> (height root \<le> limit \<longrightarrow>
        (find_errors limit root \<noteq> Inr [] \<longleftrightarrow> (\<exists>n \<in> set (preorder root). ntype n = ''ERROR'')))
   \<and> (rd p = Inr code \<and> parser code = Inr root \<and> has_error root \<and> height root \<le> limit
        \<and> list_all (\<lambda>n. ntype n \<noteq> ''ERROR'') (preorder root) \<longrightarrow>
        test_move_file limit rd p parser =
          (TestingFile p # preview_report code @ [ParseFailed, ErrorCount 0, TestResult False],
           False))"
proof (intro conjI allI impI)
  fix c assume c: "c \<in> set (error_counts (fst (test_move_file limit rd p parser)))"
  have en: "error_nodes r = filter (\<lambda>n. ntype n = ''ERROR'') (preorder r)" for r
    by (simp add: error_nodes_def is_error_tag_def [abs_def])
  show "\<exists>code root. rd p = Inr code \<and> parser code = Inr root \<and> has_error root
         \<and> find_errors limit root = Inr (filter (\<lambda>n. ntype n = ''ERROR'') (preorder root))
         \<and> c = int (length (filter (\<lambda>n. ntype n = ''ERROR'') (preorder root)))"
  proof (cases "rd p")
    case (Inl e)
    with c show ?thesis
      by (simp add: test_move_file_def error_counts_simps)
  next
    case code: (Inr code)
    show ?thesis
    proof (cases "parser code")
      case (Inl e)
      with c code preview_report_silent [of code] show ?thesis
        by (simp add: test_move_file_def error_counts_simps)
    next
      case root: (Inr root)
      show ?thesis
      proof (cases "has_error root")
        case False
        obtain out r where sr: "success_report limit root = (out, r)"
          by (cases "success_report limit root")
        then have "error_counts out = []"
          using success_report_no_count [of limit root] by simp
        with c code root False sr preview_report_silent [of code] show ?thesis
          by (cases r) (simp_all add: test_move_file_def error_counts_simps)
      next
        case True
        show ?thesis
        proof (cases "height root \<le> limit")
          case False
          then have "error_report limit root = ([ParseFailed], Some RecursionError)"
            by (intro error_report_deep) simp
          with c code root True preview_report_silent [of code] show ?thesis
            by (simp add: test_move_file_def error_counts_simps)
        next
          case h: True
          have "c = int (length (error_nodes root))"
            using c error_count_reported [where rd = rd and p = p and parser = parser
                and code = code and root = root and limit = limit, OF code root True h]
            by simp
          moreover have "find_errors limit root = Inr (error_nodes root)"
            using h by (simp add: find_errors_height(1))
          ultimately show ?thesis
            using code root True by (simp add: en)
        qed
      qed
    qed
  qed
next
  assume "height root \<le> limit"
  then show "find_errors limit root \<noteq> Inr [] \<longleftrightarrow> (\<exists>n \<in> set (preorder root). ntype n = ''ERROR'')"
    by (simp add: find_errors_height(1) error_nodes_def is_error_tag_def [abs_def]
        filter_empty_conv)
next
  assume a: "rd p = Inr code \<and> parser code = Inr root \<and> has_error root \<and> height root \<le> limit
        \<and> list_all (\<lambda>n. ntype n \<noteq> ''ERROR'') (preorder root)"
  then have "error_nodes root = []"
    by (simp add: error_nodes_def is_error_tag_def [abs_def] filter_empty_conv list_all_iff)
  then have "error_report limit root = ([ParseFailed, ErrorCount 0], None)"
    using a by (simp add: error_report_def find_errors_height(1))
  then show "test_move_file limit rd p parser =
          (TestingFile p # preview_report code @ [ParseFailed, ErrorCount 0, TestResult False],
           False)"
    using a by (simp add: test_move_file_def)
qed

theorem error_count_needs_flag_witness:
  "4 \<in> set (error_counts
              (fst (test_move_file 997 (\<lambda>p. Inr [120]) ''a.move'' (\<lambda>code. Inr tree_err))))
   \<and> has_error tree_err
   \<and> height tree_missing \<le> 997 \<and> has_error tree_missing
   \<and> list_all (\<lambda>n. ntype n \<noteq> ''ERROR'') (preorder tree_missing)
   \<and> test_move_file 997 (\<lambda>p. Inr [109, 32, 123]) ''a.move'' (\<lambda>code. Inr tree_missing) =
       (TestingFile ''a.move'' # preview_report [109, 32, 123]
          @ [ParseFailed, ErrorCount 0, TestResult False], False)"
proof -
  have h: "has_error tree_err" and ht: "height tree_err \<le> 997"
    by (simp_all add: tree_err_def)
  have "length (error_nodes tree_err) = 4"
    by (simp add: error_nodes_def tree_err_def is_error_tag_def)
  then have 1: "4 \<in> set (error_counts
              (fst (test_move_file 997 (\<lambda>p. Inr [120]) ''a.move'' (\<lambda>code. Inr tree_err))))"
    using error_count_reported [where rd = "\<lambda>p. Inr [120]" and p = "''a.move''"
        and code = "[120]" and parser = "\<lambda>code. Inr tree_err" and root = tree_err
        and limit = 997, OF _ _ h ht]
    by simp
  have m: "height tree_missing \<le> 997" "has_error tree_missing"
    "list_all (\<lambda>n. ntype n \<noteq> ''ERROR'') (preorder tree_missing)"
    by (simp_all add: tree_missing_def)
  note t = error_count_needs_flag [of 997 _ "''a.move''"]
  have 2: "test_move_file 997 (\<lambda>p. Inr [109, 32, 123]) ''a.move'' (\<lambda>code. Inr tree_missing) =
       (TestingFile ''a.move'' # preview_report [109, 32, 123]
          @ [ParseFailed, ErrorCount 0, TestResult False], False)"
    using t [of "\<lambda>p. Inr [109, 32, 123]" "\<lambda>code. Inr tree_missing" tree_missing "[109, 32, 123]",
        THEN conjunct2, THEN conjunct2] m
    by simp
  from 1 h m 2 show ?thesis
    by (intro conjI)
qed

text \<open>
  A parse result whose flag is set while \<^verbatim>\<open>find_errors\<close> returns the empty list: the
  parser inserted a missing token, which is no node of type "ERROR".
\<close>

theorem flag_without_error_node:
  "has_error tree_missing \<and> find_errors 997 tree_missing = Inr []"
  by (simp add: find_errors_height(1) error_nodes_def is_error_tag_def tree_missing_def)

section \<open>The guard of the summary\<close>

lemma collect_all:
  "list_all (\<lambda>x. case x of Inl e \<Rightarrow> True | Inr l \<Rightarrow> P l) ls \<Longrightarrow> list_all P (fst (collect ls))"
  by (induction ls rule: collect.induct) (auto split: prod.splits)

lemma node_line_quiet: "node_line n d = Inr l \<Longrightarrow> \<not> suite_level l"
  by (auto simp: node_line_def suite_level_def split: option.splits sum.splits)

lemma analyze_node_quiet: "list_all (\<lambda>ev. \<not> suite_level ev) (fst (analyze_node n d m))"
  unfolding analyze_collect(1)
  by (rule collect_all) (auto simp: list_all_iff dest: node_line_quiet split: sum.splits)

lemma show_errors_quiet: "list_all (\<lambda>ev. \<not> suite_level ev) (fst (show_errors xs))"
  by (induction xs rule: show_errors.induct)
    (auto simp: suite_level_def Let_def split: option.splits sum.splits prod.splits)

lemma preview_report_quiet: "list_all (\<lambda>ev. \<not> suite_level ev) (preview_report code)"
  by (auto simp: preview_report_def suite_level_def Let_def list_all_iff)

lemma error_report_quiet:
  "list_all (\<lambda>ev. \<not> suite_level ev) (fst (error_report limit root))"
proof (cases "find_errors limit root")
  case (Inl e)
  then show ?thesis by (simp add: error_report_def suite_level_def)
next
  case (Inr error_nodes)
  then show ?thesis
    using show_errors_quiet [of "py_enumerate 1 (take 3 error_nodes)"]
    by (auto simp: error_report_def suite_level_def split: prod.splits)
qed

lemma success_report_quiet:
  "list_all (\<lambda>ev. \<not> suite_level ev) (fst (success_report limit root))"
  using analyze_node_quiet [of root 0 2]
  by (auto simp: success_report_def suite_level_def Let_def list_all_iff
      split: prod.splits option.splits sum.splits)

lemma test_move_file_quiet:
  "list_all (\<lambda>ev. \<not> suite_level ev) (fst (test_move_file limit rd p parser))"
proof (cases "rd p")
  case (Inl e)
  then show ?thesis by (simp add: test_move_file_def suite_level_def)
next
  case code: (Inr code)
  show ?thesis
  proof (cases "parser code")
    case (Inl e)
    with code preview_report_quiet [of code] show ?thesis
      by (simp add: test_move_file_def suite_level_def)
  next
    case (Inr root)
    let ?rep = "if has_error root then error_report limit root else success_report limit root"
    obtain out r where rep: "?rep = (out, r)"
      by (cases ?rep)
    have "list_all (\<lambda>ev. \<not> suite_level ev) (fst ?rep)"
      using error_report_quiet [of limit root] success_report_quiet [of limit root] by simp
    with rep have "list_all (\<lambda>ev. \<not> suite_level ev) out"
      by simp
    with code Inr rep preview_report_quiet [of code] show ?thesis
      by (cases r) (simp_all add: test_move_file_def suite_level_def)
  qed
qed

lemma run_files_quiet:
  "list_all (\<lambda>ev. \<not> suite_level ev) (fst (run_files limit rd parser files tr))"
proof (induction files arbitrary: tr)
  case Nil
  show ?case by simp
next
  case (Cons a files)
  obtain out s where probe: "test_move_file limit rd a parser = (out, s)"
    by (cases "test_move_file limit rd a parser")
  obtain out' tr' where rest:
    "run_files limit rd parser files (AList.update (basename a) s tr) = (out', tr')"
    by (cases "run_files limit rd parser files (AList.update (basename a) s tr)")
  have "list_all (\<lambda>ev. \<not> suite_level ev) out"
    using test_move_file_quiet [of limit rd a parser] probe by simp
  moreover have "list_all (\<lambda>ev. \<not> suite_level ev) out'"
    using Cons.IH [of "AList.update (basename a) s tr"] rest by simp
  ultimately show ?case
    using probe rest by simp
qed

lemma summary_rate:
  "(snd (summary tr) = None \<longleftrightarrow> tr \<noteq> [])
   \<and> (\<forall>ev \<in> set (fst (summary tr)). suite_level ev \<longrightarrow>
        ev = SuccessRate (int (length (filter (\<lambda>s. s) (map snd tr)))) (int (length tr))
        \<and> tr \<noteq> [])"
  by (auto simp: summary_def suite_level_def Let_def)


lemma run_suite_rate:
  assumes "files \<noteq> []"
  shows "snd (run_suite limit rd parser files) = None
    \<and> (\<forall>ev \<in> set (fst (run_suite limit rd parser files)). suite_level ev \<longrightarrow>
          (\<exists>a b. ev = SuccessRate a b \<and> 1 \<le> b))"
proof -
  obtain out tr where rf: "run_files limit rd parser (sort files) [] = (out, tr)"
    by (cases "run_files limit rd parser (sort files) []")
  obtain out' r where su: "summary tr = (out', r)"
    by (cases "summary tr")
  have "fst ` set tr = basename ` set (sort files)"
    using run_files_keys [of limit rd parser "sort files" "[]"] rf by simp
  with assms have ne: "tr \<noteq> []"
    by auto
  then have len: "1 \<le> int (length tr)"
    by (cases tr) simp_all
  have q: "list_all (\<lambda>ev. \<not> suite_level ev) out"
    using run_files_quiet [of limit rd parser "sort files" "[]"] rf by simp
  have r: "r = None"
    using summary_rate [of tr] su ne by simp
  have s: "\<forall>ev \<in> set out'. suite_level ev \<longrightarrow> (\<exists>a b. ev = SuccessRate a b \<and> 1 \<le> b)"
    using summary_rate [of tr] su len by auto
  have rs: "run_suite limit rd parser files = (StartTests # out @ out', r)"
    using rf su by (simp add: run_suite_def)
  have st: "\<not> suite_level StartTests"
    by (simp add: suite_level_def)
  show ?thesis
    unfolding rs using q r s st by (auto simp: list_all_iff)
qed

text \<open>
  Claim C7. When the parser is set up and the directory is absent or no file matches,
  the run prints its message and stops: no file is probed and no summary is printed.
  Every success rate that a run prints was computed with a total of at least 1, and a
  run whose parser is set up never reports an unexpected fault, so the division by a
  total of zero does not occur.
\<close>

theorem discovery_guard:
  "(\<forall>parser. parser_setup e = Ready parser \<and> (\<not> dir_exists e \<or> glob_result e = []) \<longrightarrow>
      main e = [Banner, ParserInit, ParserCreated, LanguageName (display_name e),
                if \<not> dir_exists e then DirNotFound test_dir else NoMoveFiles test_dir])
   \<and> (\<forall>a b. SuccessRate a b \<in> set (main e) \<longrightarrow> 1 \<le> b)
   \<and> (\<forall>parser x. parser_setup e = Ready parser \<longrightarrow> OtherErrorMsg x \<notin> set (main e))"
proof -
  have abort: "\<forall>parser. parser_setup e = Ready parser \<and> (\<not> dir_exists e \<or> glob_result e = []) \<longrightarrow>
      main e = [Banner, ParserInit, ParserCreated, LanguageName (display_name e),
                if \<not> dir_exists e then DirNotFound test_dir else NoMoveFiles test_dir]"
    by (auto simp: main_def)
  have lvl: "\<forall>ev \<in> set (main e). suite_level ev \<longrightarrow>
               (\<exists>a b. ev = SuccessRate a b \<and> 1 \<le> b)
               \<or> (\<exists>x. ev = OtherErrorMsg x
                     \<and> (parser_setup e = ImportFault x \<or> parser_setup e = ConstructFault x))"
  proof (cases "parser_setup e")
    case (ImportFault err)
    then show ?thesis by (auto simp: main_def handler_def suite_level_def)
  next
    case (ConstructFault err)
    then show ?thesis by (auto simp: main_def handler_def suite_level_def)
  next
    case (Ready parser)
    show ?thesis
    proof (cases "\<not> dir_exists e \<or> glob_result e = []")
      case True
      with Ready show ?thesis by (auto simp: main_def suite_level_def)
    next
      case False
      then have ne: "glob_result e \<noteq> []" and ex: "dir_exists e"
        by simp_all
      obtain out r where rs:
        "run_suite (frames e) (read_file e) parser (glob_result e) = (out, r)"
        by (cases "run_suite (frames e) (read_file e) parser (glob_result e)")
      have r: "r = None"
        and o: "\<forall>ev \<in> set out. suite_level ev \<longrightarrow> (\<exists>a b. ev = SuccessRate a b \<and> 1 \<le> b)"
        using run_suite_rate [OF ne, of "frames e" "read_file e" parser] rs by simp_all
      have m: "main e = Banner # [ParserInit, ParserCreated, LanguageName (display_name e)]
                 @ FoundFiles (int (length (glob_result e)))
                 # map (\<lambda>(i, file_path). FoundFile i (basename file_path))
                     (py_enumerate 1 (glob_result e))
                 @ out"
        using Ready ne ex rs r by (simp add: main_def)
      show ?thesis
        unfolding m using o by (auto simp: suite_level_def)
    qed
  qed
  have rate: "\<forall>a b. SuccessRate a b \<in> set (main e) \<longrightarrow> 1 \<le> b"
  proof (intro allI impI)
    fix a b assume "SuccessRate a b \<in> set (main e)"
    moreover have "suite_level (SuccessRate a b)"
      by (simp add: suite_level_def)
    ultimately show "1 \<le> b"
      using lvl by blast
  qed
  have other: "\<forall>parser x. parser_setup e = Ready parser \<longrightarrow> OtherErrorMsg x \<notin> set (main e)"
  proof (intro allI impI notI)
    fix parser x assume p: "parser_setup e = Ready parser" and "OtherErrorMsg x \<in> set (main e)"
    moreover have "suite_level (OtherErrorMsg x)"
      by (simp add: suite_level_def)
    ultimately show False
      using lvl by fastforce
  qed
  from abort rate other show ?thesis
    by blast
qed

theorem discovery_guard_witness:
  "main env_missing_dir =
     [Banner, ParserInit, ParserCreated, LanguageName ''move_on_aptos'',
      DirNotFound ''move_test_files'']
   \<and> SuccessRate 1 1 \<in> set (main env_one_file) \<and> (1::int) \<le> 1"
proof -
  let ?rd = "\<lambda>p::string. (Inr [120] :: error + ustr)"
  let ?parser = "\<lambda>code::ustr. (Inr tree_ok :: error + node)"
  let ?f = "''move_test_files/a.move''"
  obtain out v where probe: "test_move_file 997 ?rd ?f ?parser = (out, v)"
    by (cases "test_move_file 997 ?rd ?f ?parser")
  have "snd (analyze_node tree_ok 0 2) = None"
    by (simp add: tree_ok_def node_line_def truthy_text_def decode_utf8_def cont_def)
  moreover have "\<not> has_error tree_ok" and "height tree_ok < 997"
    by (simp_all add: tree_ok_def)
  ultimately have v: "v"
    using probe_parsed [of ?rd ?f "[120]" ?parser tree_ok 997] probe by simp
  have b: "basename ?f = ''a.move''"
    by (simp add: basename_def)
  have "summary [(''a.move'', True)] =
          ([SummaryHeader, TotalFiles 1, TestsPassed 1, TestsFailed 0, SuccessRate 1 1,
            DetailLine ''a.move'' True, AllPassed, Completed], None)"
    by (simp add: summary_def)
  then have "SuccessRate 1 1 \<in> set (fst (run_suite 997 ?rd ?parser [?f]))"
    using probe v b by (simp add: run_suite_def)
  moreover obtain out' r where "run_suite 997 ?rd ?parser [?f] = (out', r)"
    by (cases "run_suite 997 ?rd ?parser [?f]")
  ultimately have "SuccessRate 1 1 \<in> set (main env_one_file)"
    by (cases r) (simp_all add: main_def env_one_file_def handler_def)
  then show ?thesis
    using discovery_guard [of env_missing_dir] discovery_guard [of env_one_file]
    by (simp add: env_missing_dir_def display_name_def test_dir_def)
qed

section \<open>The order of the suite\<close>

lemma append_le_mono: "(pre @ a \<le> pre @ b) = (a \<le> (b::string))"
  by (induction pre) simp_all

lemma sort_map_prefix: "sort (map ((@) pre) (ns::string list)) = map ((@) pre) (sort ns)"
proof (rule properties_for_sort)
  show "mset (map ((@) pre) (sort ns)) = mset (map ((@) pre) ns)"
    by simp
  show "sorted (map ((@) pre) (sort ns))"
    by (simp add: sorted_map append_le_mono)
qed

lemma basename_join: "CHR ''/'' \<notin> set n \<Longrightarrow> basename (d @ ''/'' @ n) = n"
proof -
  assume n: "CHR ''/'' \<notin> set n"
  have "takeWhile (\<lambda>c. c \<noteq> CHR ''/'') (rev n @ CHR ''/'' # rev d) =
          rev n @ takeWhile (\<lambda>c. c \<noteq> CHR ''/'') (CHR ''/'' # rev d)"
    using n by (intro takeWhile_append2) auto
  then show ?thesis
    by (simp add: basename_def)
qed

lemma update_new: "k \<notin> fst ` set al \<Longrightarrow> AList.update k v al = al @ [(k, v)]"
  by (induction al) auto

lemma run_files_distinct:
  assumes "distinct (map basename files)" and "basename ` set files \<inter> fst ` set tr = {}"
  shows "run_files limit rd parser files tr =
           (concat (map (\<lambda>p. fst (test_move_file limit rd p parser)) files),
            tr @ map (\<lambda>p. (basename p, snd (test_move_file limit rd p parser))) files)"
  using assms
proof (induction files arbitrary: tr)
  case Nil
  show ?case by simp
next
  case (Cons a files)
  obtain out s where probe: "test_move_file limit rd a parser = (out, s)"
    by (cases "test_move_file limit rd a parser")
  have new: "AList.update (basename a) s tr = tr @ [(basename a, s)]"
    using Cons.prems(2) by (intro update_new) auto
  have "distinct (map basename files)"
    using Cons.prems(1) by simp
  moreover have "basename ` set files \<inter> fst ` set (tr @ [(basename a, s)]) = {}"
    using Cons.prems by auto
  ultimately have "run_files limit rd parser files (tr @ [(basename a, s)]) =
           (concat (map (\<lambda>p. fst (test_move_file limit rd p parser)) files),
            (tr @ [(basename a, s)])
              @ map (\<lambda>p. (basename p, snd (test_move_file limit rd p parser))) files)"
    by (rule Cons.IH)
  then show ?case
    using probe new by simp
qed

lemma sorted_pairs:
  assumes "sorted (map fst (tr :: (string \<times> bool) list))" and "distinct (map fst tr)"
  shows "sort tr = tr"
proof -
  have "sorted_wrt (<) (map fst tr)"
    using assms by (simp add: strict_sorted_iff)
  then have "sorted_wrt (\<lambda>x y. fst x < fst y) tr"
    by (simp add: sorted_wrt_map)
  then have "sorted_wrt (\<le>) tr"
    by (rule sorted_wrt_mono_rel [rotated]) (auto simp: less_eq_prod_def)
  then show ?thesis
    by (simp add: sorted_sort_id)
qed

lemma sort_mset_eq: "mset xs = mset ys \<Longrightarrow> sort xs = sort (ys :: string list)"
  by (rule properties_for_sort) simp_all

text \<open>
  Claim C8. When the paths found are the directory joined with distinct file names, as
  \<^verbatim>\<open>glob\<close> returns them in any order, the suite probes the files in the order of
  their sorted paths, which is the lexicographic order of the file names, and prints one
  result line per file in that same order, each with the verdict of that file. The
  output and the summary of the suite depend only on which paths were found, not on the
  order in which they were found: two runs that find the same files print the same.
\<close>

theorem suite_order:
  assumes "files = map (\<lambda>n. test_dir @ ''/'' @ n) names" and "distinct names"
    and "\<forall>n \<in> set names. CHR ''/'' \<notin> set n" and "names \<noteq> []"
  shows "run_suite limit rd parser files =
           (StartTests # concat (map (\<lambda>p. fst (test_move_file limit rd p parser)) (sort files))
              @ [SummaryHeader, TotalFiles (int (length files)),
                 TestsPassed (int (length (filter (\<lambda>p. snd (test_move_file limit rd p parser))
                                             (sort files)))),
                 TestsFailed (int (length files)
                     - int (length (filter (\<lambda>p. snd (test_move_file limit rd p parser))
                                      (sort files)))),
                 SuccessRate (int (length (filter (\<lambda>p. snd (test_move_file limit rd p parser))
                                              (sort files))))
                   (int (length files))]
              @ map (\<lambda>p. DetailLine (basename p) (snd (test_move_file limit rd p parser)))
                  (sort files)
              @ [if int (length files)
                      - int (length (filter (\<lambda>p. snd (test_move_file limit rd p parser))
                                       (sort files))) = 0
                 then AllPassed
                 else SomeFailed (int (length files)
                     - int (length (filter (\<lambda>p. snd (test_move_file limit rd p parser))
                                      (sort files)))),
                 Completed],
            None)
     \<and> map basename (sort files) = sort (map basename files)
     \<and> (\<forall>files'. mset files' = mset files \<longrightarrow>
           run_suite limit rd parser files' = run_suite limit rd parser files)"
proof -
  let ?pre = "test_dir @ ''/''"
  let ?v = "\<lambda>p. snd (test_move_file limit rd p parser)"
  let ?tr = "map (\<lambda>p. (basename p, ?v p)) (sort files)"
  have files: "files = map ((@) ?pre) names"
    using assms(1) by simp
  have sf: "sort files = map ((@) ?pre) (sort names)"
    unfolding files by (rule sort_map_prefix)
  have bj: "basename (test_dir @ CHR ''/'' # n) = n" if "n \<in> set names" for n
    using basename_join [of n test_dir] assms(3) that by simp
  have bn: "map basename (sort files) = sort names"
  proof -
    have "map (\<lambda>x. basename (test_dir @ CHR ''/'' # x)) (sort names) = sort names"
      by (rule map_idI) (simp add: bj)
    then show ?thesis
      unfolding sf by (simp add: comp_def)
  qed
  have bn0: "map basename files = names"
  proof -
    have "map (\<lambda>x. basename (test_dir @ CHR ''/'' # x)) names = names"
      by (rule map_idI) (simp add: bj)
    then show ?thesis
      unfolding files by (simp add: comp_def)
  qed
  have order: "map basename (sort files) = sort (map basename files)"
    using bn bn0 by simp
  have "distinct (map basename (sort files))"
    using bn assms(2) by simp
  then have rf: "run_files limit rd parser (sort files) [] =
                   (concat (map (\<lambda>p. fst (test_move_file limit rd p parser)) (sort files)), ?tr)"
    using run_files_distinct [of "sort files" "[]" limit rd parser] by simp
  have keys: "map fst ?tr = sort names"
    using bn by (simp add: comp_def)
  have st: "sort ?tr = ?tr"
    by (rule sorted_pairs) (simp_all only: keys sorted_sort distinct_sort assms(2))
  have "length ?tr = length names"
    using files by simp
  then have ne: "?tr \<noteq> []"
    using assms(4) by (metis length_0_conv)
  have fne: "files \<noteq> []"
    using assms(4) files by simp
  have len: "length ?tr = length files"
    by simp
  have passed: "filter (\<lambda>success. success) (map snd ?tr) = map ?v (filter ?v (sort files))"
    by (simp add: filter_map comp_def)
  have su: "summary ?tr =
      ([SummaryHeader, TotalFiles (int (length files)),
        TestsPassed (int (length (filter ?v (sort files)))),
        TestsFailed (int (length files) - int (length (filter ?v (sort files)))),
        SuccessRate (int (length (filter ?v (sort files)))) (int (length files))]
       @ map (\<lambda>p. DetailLine (basename p) (?v p)) (sort files)
       @ [if int (length files) - int (length (filter ?v (sort files))) = 0
          then AllPassed
          else SomeFailed (int (length files) - int (length (filter ?v (sort files)))),
          Completed],
       None)"
    using ne fne unfolding summary_def st passed
    by (simp add: Let_def comp_def)
  have out: "run_suite limit rd parser files =
           (StartTests # concat (map (\<lambda>p. fst (test_move_file limit rd p parser)) (sort files))
              @ fst (summary ?tr), snd (summary ?tr))"
    using rf by (simp add: run_suite_def split: prod.splits)
  have perm: "\<forall>files'. mset files' = mset files \<longrightarrow>
           run_suite limit rd parser files' = run_suite limit rd parser files"
    by (auto simp: run_suite_def dest: sort_mset_eq)
  have "run_suite limit rd parser files =
           (StartTests # concat (map (\<lambda>p. fst (test_move_file limit rd p parser)) (sort files))
              @ [SummaryHeader, TotalFiles (int (length files)),
                 TestsPassed (int (length (filter ?v (sort files)))),
                 TestsFailed (int (length files) - int (length (filter ?v (sort files)))),
                 SuccessRate (int (length (filter ?v (sort files)))) (int (length files))]
              @ map (\<lambda>p. DetailLine (basename p) (?v p)) (sort files)
              @ [if int (length files) - int (length (filter ?v (sort files))) = 0
                 then AllPassed
                 else SomeFailed (int (length files) - int (length (filter ?v (sort files)))),
                 Completed],
            None)"
    unfolding out su by simp
  then show ?thesis
    using order perm by (intro conjI)
qed

theorem suite_order_witness:
  "map basename (sort (glob_result env_two_files)) = sort [''b.move'', ''a.move'']
   \<and> run_suite 997 (read_file env_two_files) (\<lambda>code. Inr tree_ok)
        [''move_test_files/a.move'', ''move_test_files/b.move'']
       = run_suite 997 (read_file env_two_files) (\<lambda>code. Inr tree_ok) (glob_result env_two_files)"
proof -
  have 1: "glob_result env_two_files = map (\<lambda>n. test_dir @ ''/'' @ n) [''b.move'', ''a.move'']"
    by (simp add: env_two_files_def test_dir_def)
  have 2: "distinct [''b.move'', ''a.move'']"
    by simp
  have 3: "\<forall>n \<in> set [''b.move'', ''a.move'']. CHR ''/'' \<notin> set n"
    by simp
  have 4: "[''b.move'', ''a.move''] \<noteq> []"
    by simp
  have 5: "mset [''move_test_files/a.move'', ''move_test_files/b.move'']
             = mset (glob_result env_two_files)"
    by (simp add: env_two_files_def)
  have 6: "map basename (glob_result env_two_files) = [''b.move'', ''a.move'']"
    by (simp add: env_two_files_def basename_def)
  note so = suite_order [OF 1 2 3 4, of 997 "read_file env_two_files" "\<lambda>code. Inr tree_ok"]
  have a: "map basename (sort (glob_result env_two_files)) =
             sort (map basename (glob_result env_two_files))"
    using so [THEN conjunct2, THEN conjunct1] .
  have b: "\<forall>files'. mset files' = mset (glob_result env_two_files) \<longrightarrow>
             run_suite 997 (read_file env_two_files) (\<lambda>code. Inr tree_ok) files'
             = run_suite 997 (read_file env_two_files) (\<lambda>code. Inr tree_ok)
                 (glob_result env_two_files)"
    using so [THEN conjunct2, THEN conjunct2] .
  have a': "map basename (sort (glob_result env_two_files)) = sort [''b.move'', ''a.move'']"
    using a unfolding 6 .
  show ?thesis
    using a' b [rule_format, OF 5] by (rule conjI)
qed

end
